theory Spec2Isabelle
  imports
    Main
    "HOL-Library.Char_ord"
    "HOL-Library.List_Lexorder"
    "HOL-Library.Product_Lexorder"
    "HOL-Library.Multiset"
begin

section \<open>Paths\<close>

text \<open>
  The program handles \<^verbatim>\<open>pathlib.Path\<close> values on a POSIX system. A path is its
  anchor (the empty string for a relative path, \<^verbatim>\<open>/\<close> for an absolute one) and the
  list of its segments after the anchor. Names are byte strings (UTF-8), on which
  \<^verbatim>\<open>rfind\<close>, \<^verbatim>\<open>startswith\<close>, \<^verbatim>\<open>endswith\<close> and the comparison by code
  points agree with Python's on the decoded text.
\<close>

record path =
  anchor :: string
  tail :: "string list"

definition parts :: "path \<Rightarrow> string list" where
  \<comment> \<open>\<^verbatim>\<open>path.parts\<close>: the anchor, when there is one, is the first part.\<close>
  "parts p = (if anchor p = [] then tail p else anchor p # tail p)"

definition name :: "path \<Rightarrow> string" where
  \<comment> \<open>\<^verbatim>\<open>path.name\<close>: the last segment, empty for a bare anchor or the empty path.\<close>
  "name p = (if tail p = [] then [] else last (tail p))"

definition parent :: "path \<Rightarrow> path" where
  \<comment> \<open>\<^verbatim>\<open>path.parent\<close>: the parent of a bare anchor, or of the empty path, is itself.\<close>
  "parent p = (if tail p = [] then p else p\<lparr>tail := butlast (tail p)\<rparr>)"

definition child :: "path \<Rightarrow> string \<Rightarrow> path" where
  \<comment> \<open>\<^verbatim>\<open>path / n\<close> for one segment \<open>n\<close>.\<close>
  "child p n = p\<lparr>tail := tail p @ [n]\<rparr>"

definition below :: "path \<Rightarrow> string list \<Rightarrow> path" where
  \<comment> \<open>\<^verbatim>\<open>path.joinpath(*rel)\<close>.\<close>
  "below p rel = p\<lparr>tail := tail p @ rel\<rparr>"

definition relative_to :: "path \<Rightarrow> path \<Rightarrow> string list option" where
  \<comment> \<open>The parts of \<^verbatim>\<open>p.relative_to(b)\<close>; \<open>None\<close> is the \<^verbatim>\<open>ValueError\<close> raised
      when \<open>b\<close> is not a lexical prefix of \<open>p\<close>.\<close>
  "relative_to p b =
     (if anchor p = anchor b \<and> take (length (tail b)) (tail p) = tail b
      then Some (drop (length (tail b)) (tail p)) else None)"

definition rfind :: "char \<Rightarrow> string \<Rightarrow> int" where
  \<comment> \<open>\<^verbatim>\<open>s.rfind(c)\<close>: the highest index of \<open>c\<close>, or \<open>-1\<close>.\<close>
  "rfind c s =
     (if c \<in> set s then int (length s) - 1 - int (length (takeWhile (\<lambda>x. x \<noteq> c) (rev s)))
      else - 1)"

definition suffix :: "path \<Rightarrow> string" where
  \<comment> \<open>\<^verbatim>\<open>path.suffix\<close> (pathlib up to Python 3.13): from the last dot of the name on,
      unless that dot is the first or the last character.\<close>
  "suffix p =
     (let n = name p; i = rfind (CHR ''.'') n
      in if 0 < i \<and> i < int (length n) - 1 then drop (nat i) n else [])"

definition startswith :: "string \<Rightarrow> string \<Rightarrow> bool" where
  "startswith s pre = (take (length pre) s = pre)"

definition endswith :: "string \<Rightarrow> string \<Rightarrow> bool" where
  "endswith s suf = (length suf \<le> length s \<and> drop (length s - length suf) s = suf)"

section \<open>Filter: \<^verbatim>\<open>should_include\<close>\<close>

definition exclude_dirs :: "string set" where
  "exclude_dirs =
     {''node_modules'', ''.next'', ''.git'', ''.firebase'', ''.vercel'',
      ''.github'', ''__pycache__'', ''dist'', ''build'', ''.cache'',
      ''.vscode'', ''.idea'', ''.DS_Store'', ''coverage'', ''.yarn'', ''dev-tools'',
      ''supabase'', ''database''}"

definition exclude_files :: "string set" where
  "exclude_files =
     {''.DS_Store'', ''Thumbs.db'', ''.gitignore'', ''.gitattributes'',
      ''.env'', ''.env.local'', ''.env.production'', ''package-lock.json'',
      ''yarn.lock'', ''pnpm-lock.yaml'', ''*.log'', ''*.tmp''}"

definition exclude_extensions :: "string set" where
  "exclude_extensions =
     {''.map'', ''.log'', ''.tmp'', ''.cache'', ''.ico'', ''.png'', ''.jpg'', ''.svg''}"

definition auto_generated_files :: "string list" where
  \<comment> \<open>A Python set, iterated by the loop below; the list keeps the order of the literal.
      \<open>pattern_loop_order\<close> shows that the order of iteration does not matter.\<close>
  "auto_generated_files =
     [''asset-manifest.json'', ''robots.txt'', ''manifest.json'',
      ''favicon.ico'', ''logo192.png'', ''logo512.png'', ''*.css.map'',
      ''*.js.map'', ''LICENSE.txt'', ''reportWebVitals.ts'',
      ''setupTests.ts'', ''App.test.tsx'', ''react-app-env.d.ts'']"

fun pattern_loop :: "string list \<Rightarrow> string \<Rightarrow> bool" where
  \<comment> \<open>The \<^verbatim>\<open>for pattern in auto_generated_files\<close> loop on \<^verbatim>\<open>path.name\<close>:
      \<open>False\<close> when the loop returns \<^verbatim>\<open>False\<close>, \<open>True\<close> when it runs to its end.\<close>
  "pattern_loop [] n = True"
| "pattern_loop (pattern # rest) n =
     (if startswith pattern ''*''
      then (if endswith n (drop 1 pattern) then False else pattern_loop rest n)
      else if n = pattern then False
      else pattern_loop rest n)"

definition should_include :: "path \<Rightarrow> bool" where
  "should_include p =
     (if \<exists>part \<in> set (parts p). part \<in> exclude_dirs then False
      else if name p \<in> exclude_files then False
      else if suffix p \<in> exclude_extensions then False
      else if \<not> pattern_loop auto_generated_files (name p) then False
      else if ''build'' \<in> set (parts p) \<or> ''static'' \<in> set (parts p) then False
      else True)"

section \<open>The filesystem and the printed output\<close>

text \<open>
  Both printers read the filesystem through \<^verbatim>\<open>pathlib\<close> only. The state of
  the filesystem during one run is the record of what these calls answer:
  \<open>rglob b\<close> is the sequence \<^verbatim>\<open>b.rglob('*')\<close> yields, in the order of enumeration;
  \<open>listdir d\<close> is the list of names \<^verbatim>\<open>d.iterdir()\<close> is built from, or the exception
  it raises; \<open>is_dir\<close> and \<open>is_file\<close> are the two classifications. The exceptions that a
  call of \<^verbatim>\<open>is_dir()\<close> itself may raise are a parameter of their own, of the Summary
  Printer, whose handlers take them.
\<close>

datatype exn = PermissionError string | OtherError string | ValueError string

fun message :: "exn \<Rightarrow> string" where
  \<comment> \<open>\<^verbatim>\<open>str(e)\<close>\<close>
  "message (PermissionError m) = m"
| "message (OtherError m) = m"
| "message (ValueError m) = m"

record filesystem =
  rglob :: "path \<Rightarrow> path list"
  listdir :: "path \<Rightarrow> exn + string list"
  is_dir :: "path \<Rightarrow> bool"
  is_file :: "path \<Rightarrow> bool"

definition iterdir :: "filesystem \<Rightarrow> path \<Rightarrow> exn + path list" where
  \<comment> \<open>\<^verbatim>\<open>list(d.iterdir())\<close>: the children of \<open>d\<close>, or the exception.\<close>
  "iterdir fs d = (case listdir fs d of Inl e \<Rightarrow> Inl e | Inr names \<Rightarrow> Inr (map (child d) names))"

text \<open>
  One element of the output is one call of \<^verbatim>\<open>print\<close>: the text printed (without the
  final newline) and, for a line about a path, that path. Two directories of the same name
  and depth print the same text, so the path is what tells their headers apart.
\<close>

datatype printed =
    Line string
  | Dir_header path string
  | File_line path string
  | Section path string
  | Sub_dir path string
  | Sub_file path string

fun text_of :: "printed \<Rightarrow> string" where
  "text_of (Line t) = t"
| "text_of (Dir_header p t) = t"
| "text_of (File_line p t) = t"
| "text_of (Section p t) = t"
| "text_of (Sub_dir p t) = t"
| "text_of (Sub_file p t) = t"

definition folder_mark :: string where
  \<comment> \<open>U+1F4C1 in UTF-8\<close>
  "folder_mark = [CHR 0xF0, CHR 0x9F, CHR 0x93, CHR 0x81]"

definition open_folder_mark :: string where
  \<comment> \<open>U+1F4C2 in UTF-8\<close>
  "open_folder_mark = [CHR 0xF0, CHR 0x9F, CHR 0x93, CHR 0x82]"

definition page_mark :: string where
  \<comment> \<open>U+1F4C4 in UTF-8\<close>
  "page_mark = [CHR 0xF0, CHR 0x9F, CHR 0x93, CHR 0x84]"

definition glass_mark :: string where
  \<comment> \<open>U+1F50D in UTF-8\<close>
  "glass_mark = [CHR 0xF0, CHR 0x9F, CHR 0x94, CHR 0x8D]"

definition rule_line :: string where
  \<comment> \<open>\<^verbatim>\<open>"=" * 60\<close>\<close>
  "rule_line = replicate 60 (CHR ''='')"

definition indent :: "nat \<Rightarrow> string" where
  \<comment> \<open>\<^verbatim>\<open>'  ' * (level - 1)\<close>; Python's product by a negative number is the empty
      string, as the truncated subtraction gives here.\<close>
  "indent level = concat (replicate (level - 1) ''  '')"

section \<open>Tree Printer: \<^verbatim>\<open>show_clean_structure\<close>\<close>

partial_function (option) walk_up ::
  "filesystem \<Rightarrow> path \<Rightarrow> path \<Rightarrow> path list \<times> path set \<Rightarrow> (path list \<times> path set) option"
where
  \<comment> \<open>The \<^verbatim>\<open>while current != base_path\<close> loop on the pair of \<^verbatim>\<open>dirs_to_show\<close> and
      \<^verbatim>\<open>shown_dirs\<close>. It has no exit for a path that is not below the base.\<close>
  "walk_up fs base_path current st =
     (if current \<noteq> base_path
      then walk_up fs base_path (parent current)
             (if is_dir fs current \<and> current \<notin> snd st
              then (fst st @ [current], insert current (snd st))
              else st)
      else Some st)"

declare walk_up.simps [code]

definition level_of :: "path \<Rightarrow> path \<Rightarrow> exn + nat" where
  \<comment> \<open>\<^verbatim>\<open>len(p.relative_to(base_path).parts)\<close>\<close>
  "level_of p base_path =
     (case relative_to p base_path of
        None \<Rightarrow> Inl (ValueError [])
      | Some rel \<Rightarrow> Inr (length rel))"

fun print_dirs :: "path \<Rightarrow> path list \<Rightarrow> exn + printed list" where
  \<comment> \<open>The \<^verbatim>\<open>for dir_path in reversed(dirs_to_show)\<close> loop, on the reversed list.\<close>
  "print_dirs base_path [] = Inr []"
| "print_dirs base_path (dir_path # rest) =
     (case level_of dir_path base_path of
        Inl e \<Rightarrow> Inl e
      | Inr level \<Rightarrow>
          (case print_dirs base_path rest of
             Inl e \<Rightarrow> Inl e
           | Inr out \<Rightarrow>
               Inr (Dir_header dir_path
                      (indent level @ folder_mark @ '' '' @ name dir_path @ ''/'') # out)))"

definition print_file :: "filesystem \<Rightarrow> path \<Rightarrow> path \<Rightarrow> exn + printed list" where
  \<comment> \<open>The \<^verbatim>\<open>if path.is_file()\<close> statement.\<close>
  "print_file fs base_path p =
     (if is_file fs p
      then (case level_of p base_path of
              Inl e \<Rightarrow> Inl e
            | Inr level \<Rightarrow> Inr [File_line p (indent level @ page_mark @ '' '' @ name p)])
      else Inr [])"

fun tree_loop ::
  "filesystem \<Rightarrow> path \<Rightarrow> path list \<Rightarrow> printed list \<times> path set \<Rightarrow> (exn + printed list) option"
where
  \<comment> \<open>The \<^verbatim>\<open>for path in sorted(...)\<close> loop on the pair of the output so far and
      \<^verbatim>\<open>shown_dirs\<close>. \<open>None\<close>: the inner loop never ends; \<open>Some (Inl e)\<close>: the
      exception \<open>e\<close> of \<^verbatim>\<open>relative_to\<close> leaves the function (\<open>tree_loop_no_exception\<close>
      shows that this does not happen); \<open>Some (Inr out)\<close>: the function returns, having
      printed \<open>out\<close>.\<close>
  "tree_loop fs base_path [] (out, shown_dirs) = Some (Inr out)"
| "tree_loop fs base_path (p # rest) (out, shown_dirs) =
     (if \<not> should_include p then tree_loop fs base_path rest (out, shown_dirs)
      else
        (case walk_up fs base_path p ([], shown_dirs) of
           None \<Rightarrow> None
         | Some (dirs_to_show, shown_dirs') \<Rightarrow>
             (case print_dirs base_path (rev dirs_to_show) of
                Inl e \<Rightarrow> Some (Inl e)
              | Inr headers \<Rightarrow>
                  (case print_file fs base_path p of
                     Inl e \<Rightarrow> Some (Inl e)
                   | Inr file \<Rightarrow>
                       tree_loop fs base_path rest (out @ headers @ file, shown_dirs')))))"

definition tree_banner :: "printed list" where
  "tree_banner =
     [Line (folder_mark @ '' PROJECT STRUCTURE (Source & Config Files Only):''),
      Line rule_line]"

definition show_clean_structure :: "filesystem \<Rightarrow> path \<Rightarrow> (exn + printed list) option" where
  \<comment> \<open>\<open>base_path\<close> is the base directory either branch of the first statement gives.
      \<^verbatim>\<open>sorted\<close> compares paths by their parts and is stable, as \<open>sort_key parts\<close> is.\<close>
  "show_clean_structure fs base_path =
     tree_loop fs base_path (sort_key parts (rglob fs base_path)) (tree_banner, {})"

section \<open>Summary Printer: \<^verbatim>\<open>show_summary\<close>\<close>

text \<open>
  First the Summary Printer on a filesystem whose \<^verbatim>\<open>is_dir()\<close> answers on every path;
  the subsection after it adds the exceptions these calls may raise.
\<close>

definition summary_exclude_dirs :: "string set" where
  "summary_exclude_dirs =
     {''node_modules'', ''.git'', ''.next'', ''dist'', ''build'', ''.cache'', ''.vscode'', ''.idea''}"

definition summary_banner :: "printed list" where
  "summary_banner =
     [Line ([CHR 0x0A] @ glass_mark @ '' ACTUAL DIRECTORY CONTENTS (No filtering):''),
      Line rule_line]"

definition section_line :: "path \<Rightarrow> printed" where
  "section_line item = Section item ([CHR 0x0A] @ open_folder_mark @ '' '' @ name item @ ''/'')"

definition sub_item_line :: "filesystem \<Rightarrow> path \<Rightarrow> printed" where
  \<comment> \<open>The body of the loop over the sorted \<^verbatim>\<open>sub_items\<close>.\<close>
  "sub_item_line fs sub_item =
     (if is_dir fs sub_item
      then Sub_dir sub_item (''  '' @ folder_mark @ '' '' @ name sub_item @ ''/'')
      else Sub_file sub_item (''  '' @ page_mark @ '' '' @ name sub_item))"

definition denied_line :: printed where
  "denied_line = Line ''  (Permission denied)''"

definition no_subdirs_line :: printed where
  "no_subdirs_line = Line ([CHR 0x0A] @ ''No subdirectories found.'')"

definition error_line :: "exn \<Rightarrow> printed" where
  "error_line e = Line (''Error reading directory: '' @ message e)"

definition summary_body :: "filesystem \<Rightarrow> path \<Rightarrow> printed list \<times> exn option" where
  \<comment> \<open>The body of the loop over the sorted \<^verbatim>\<open>items\<close>: what it prints, and the
      exception that leaves it, if any. The inner handler takes \<^verbatim>\<open>PermissionError\<close>
      only. \<^verbatim>\<open>sorted\<close> with a key is stable, as \<open>sort_key\<close> is; the key is a pair,
      compared lexicographically, \<open>False\<close> before \<open>True\<close>.\<close>
  "summary_body fs item =
     (case iterdir fs item of
        Inr sub_items \<Rightarrow>
          (section_line item #
             map (sub_item_line fs) (sort_key (\<lambda>x. (\<not> is_dir fs x, name x)) sub_items),
           None)
      | Inl (PermissionError m) \<Rightarrow> ([section_line item, denied_line], None)
      | Inl e \<Rightarrow> ([section_line item], Some e))"

fun summary_loop :: "filesystem \<Rightarrow> path list \<Rightarrow> printed list \<times> exn option" where
  \<comment> \<open>The \<^verbatim>\<open>for item in sorted(items, ...)\<close> loop: it stops at the first exception
      that leaves its body.\<close>
  "summary_loop fs [] = ([], None)"
| "summary_loop fs (item # rest) =
     (case summary_body fs item of
        (out, Some e) \<Rightarrow> (out, Some e)
      | (out, None) \<Rightarrow> (case summary_loop fs rest of (out', r) \<Rightarrow> (out @ out', r)))"

definition show_summary :: "filesystem \<Rightarrow> path \<Rightarrow> printed list" where
  \<comment> \<open>The outer handler takes every \<^verbatim>\<open>Exception\<close>, so the function returns what it
      has printed.\<close>
  "show_summary fs base_path =
     summary_banner @
     (case iterdir fs base_path of
        Inl e \<Rightarrow> [error_line e]
      | Inr listing \<Rightarrow>
          (let items = filter (\<lambda>item. is_dir fs item \<and> name item \<notin> summary_exclude_dirs) listing
           in if items \<noteq> []
              then (case summary_loop fs (sort_key name items) of
                      (out, None) \<Rightarrow> out
                    | (out, Some e) \<Rightarrow> out @ [error_line e])
              else [no_subdirs_line]))"

subsection \<open>The Summary Printer when \<^verbatim>\<open>is_dir()\<close> may raise\<close>

text \<open>
  \<^verbatim>\<open>is_dir()\<close> raises when the path may not be looked at (pathlib up to Python 3.13
  lets \<^verbatim>\<open>PermissionError\<close> through). The Summary Printer calls it inside both of its
  \<^verbatim>\<open>try\<close> blocks; the definitions below take the exceptions of these calls as a further
  parameter \<open>raises\<close>. \<open>show_summary\<close> above is the case in which every call answers
  (\<open>show_summary_raising_never\<close>). The Tree Printer has no handler: there such an exception
  ends the run, with the lines printed so far.
\<close>

definition is_dir_call :: "(path \<Rightarrow> exn option) \<Rightarrow> filesystem \<Rightarrow> path \<Rightarrow> exn + bool" where
  \<comment> \<open>A call of \<^verbatim>\<open>p.is_dir()\<close>: the exception \<open>raises p\<close>, if there is one, or the answer.\<close>
  "is_dir_call raises fs p = (case raises p of Some e \<Rightarrow> Inl e | None \<Rightarrow> Inr (is_dir fs p))"

fun select_items :: "(path \<Rightarrow> exn option) \<Rightarrow> filesystem \<Rightarrow> path list \<Rightarrow> exn + path list" where
  \<comment> \<open>The list comprehension over \<^verbatim>\<open>base_path.iterdir()\<close>: \<^verbatim>\<open>item.is_dir()\<close> is called on
      every item, in the order of the listing, and its exception leaves the comprehension.\<close>
  "select_items raises fs [] = Inr []"
| "select_items raises fs (item # rest) =
     (case is_dir_call raises fs item of
        Inl e \<Rightarrow> Inl e
      | Inr d \<Rightarrow>
          (case select_items raises fs rest of
             Inl e \<Rightarrow> Inl e
           | Inr items \<Rightarrow>
               Inr (if d \<and> name item \<notin> summary_exclude_dirs then item # items else items)))"

fun sort_keys ::
  "(path \<Rightarrow> exn option) \<Rightarrow> filesystem \<Rightarrow> path list \<Rightarrow> exn + (bool \<times> string) list" where
  \<comment> \<open>The keys \<^verbatim>\<open>(not x.is_dir(), x.name)\<close> that \<^verbatim>\<open>sorted\<close> computes, one call for each
      element in the order of the list, before it compares any.\<close>
  "sort_keys raises fs [] = Inr []"
| "sort_keys raises fs (x # rest) =
     (case is_dir_call raises fs x of
        Inl e \<Rightarrow> Inl e
      | Inr d \<Rightarrow>
          (case sort_keys raises fs rest of
             Inl e \<Rightarrow> Inl e
           | Inr keys \<Rightarrow> Inr ((\<not> d, name x) # keys)))"

definition sorted_sub_items ::
  "(path \<Rightarrow> exn option) \<Rightarrow> filesystem \<Rightarrow> path list \<Rightarrow> exn + path list" where
  \<comment> \<open>\<^verbatim>\<open>sorted(sub_items, key=...)\<close>: a stable sort of the elements by their keys.\<close>
  "sorted_sub_items raises fs sub_items =
     (case sort_keys raises fs sub_items of
        Inl e \<Rightarrow> Inl e
      | Inr keys \<Rightarrow> Inr (map snd (sort_key fst (zip keys sub_items))))"

fun print_sub_items ::
  "(path \<Rightarrow> exn option) \<Rightarrow> filesystem \<Rightarrow> path list \<Rightarrow> printed list \<times> exn option" where
  \<comment> \<open>The loop over the sorted \<^verbatim>\<open>sub_items\<close>, with its second call of \<^verbatim>\<open>is_dir()\<close>: what
      it prints, and the exception that leaves it, if any.\<close>
  "print_sub_items raises fs [] = ([], None)"
| "print_sub_items raises fs (sub_item # rest) =
     (case is_dir_call raises fs sub_item of
        Inl e \<Rightarrow> ([], Some e)
      | Inr d \<Rightarrow>
          (case print_sub_items raises fs rest of
             (out, r) \<Rightarrow>
               ((if d then Sub_dir sub_item (''  '' @ folder_mark @ '' '' @ name sub_item @ ''/'')
                 else Sub_file sub_item (''  '' @ page_mark @ '' '' @ name sub_item)) # out, r)))"

fun inner_handler :: "printed list \<Rightarrow> exn \<Rightarrow> printed list \<times> exn option" where
  \<comment> \<open>\<^verbatim>\<open>except PermissionError\<close>, after \<open>out\<close> has been printed for the item: the line
      \<^verbatim>\<open>(Permission denied)\<close>; any other exception leaves the body of the loop.\<close>
  "inner_handler out (PermissionError m) = (out @ [denied_line], None)"
| "inner_handler out e = (out, Some e)"

definition summary_body_raising ::
  "(path \<Rightarrow> exn option) \<Rightarrow> filesystem \<Rightarrow> path \<Rightarrow> printed list \<times> exn option" where
  \<comment> \<open>The body of the loop over the sorted \<^verbatim>\<open>items\<close>. The \<^verbatim>\<open>try\<close> block holds the listing,
      the computation of the sort keys and the loop over the sorted entries.\<close>
  "summary_body_raising raises fs item =
     (case iterdir fs item of
        Inl e \<Rightarrow> inner_handler [section_line item] e
      | Inr sub_items \<Rightarrow>
          (case sorted_sub_items raises fs sub_items of
             Inl e \<Rightarrow> inner_handler [section_line item] e
           | Inr sorted_items \<Rightarrow>
               (case print_sub_items raises fs sorted_items of
                  (out, None) \<Rightarrow> (section_line item # out, None)
                | (out, Some e) \<Rightarrow> inner_handler (section_line item # out) e)))"

fun summary_loop_raising ::
  "(path \<Rightarrow> exn option) \<Rightarrow> filesystem \<Rightarrow> path list \<Rightarrow> printed list \<times> exn option" where
  \<comment> \<open>The \<^verbatim>\<open>for item in sorted(items, ...)\<close> loop: it stops at the first exception that
      leaves its body.\<close>
  "summary_loop_raising raises fs [] = ([], None)"
| "summary_loop_raising raises fs (item # rest) =
     (case summary_body_raising raises fs item of
        (out, Some e) \<Rightarrow> (out, Some e)
      | (out, None) \<Rightarrow>
          (case summary_loop_raising raises fs rest of (out', r) \<Rightarrow> (out @ out', r)))"

definition show_summary_raising ::
  "(path \<Rightarrow> exn option) \<Rightarrow> filesystem \<Rightarrow> path \<Rightarrow> printed list" where
  \<comment> \<open>The outer handler takes every \<^verbatim>\<open>Exception\<close>, of the listing of the base directory, of
      the comprehension and of the loop.\<close>
  "show_summary_raising raises fs base_path =
     summary_banner @
     (case iterdir fs base_path of
        Inl e \<Rightarrow> [error_line e]
      | Inr listing \<Rightarrow>
          (case select_items raises fs listing of
             Inl e \<Rightarrow> [error_line e]
           | Inr items \<Rightarrow>
               if items \<noteq> []
               then (case summary_loop_raising raises fs (sort_key name items) of
                       (out, None) \<Rightarrow> out
                     | (out, Some e) \<Rightarrow> out @ [error_line e])
               else [no_subdirs_line]))"

section \<open>Notions the properties are stated with\<close>

definition spec_matches :: "string \<Rightarrow> string \<Rightarrow> bool" where
  \<comment> \<open>The specification's reading of a pattern, for comparison with \<open>pattern_loop\<close>:
      a pattern beginning with \<^verbatim>\<open>*\<close> matches the names that end with its remainder,
      any other pattern matches the name equal to it.\<close>
  "spec_matches pattern n =
     (if pattern \<noteq> [] \<and> hd pattern = CHR ''*'' then (\<exists>pre. n = pre @ tl pattern)
      else n = pattern)"

definition strictly_below :: "path \<Rightarrow> path \<Rightarrow> bool" where
  \<comment> \<open>\<open>p\<close> is \<open>base_path\<close> followed by at least one more segment.\<close>
  "strictly_below base_path p =
     (case relative_to p base_path of Some (s # rel) \<Rightarrow> True | _ \<Rightarrow> False)"

definition ancestors_below :: "path \<Rightarrow> path \<Rightarrow> path list" where
  \<comment> \<open>The proper ancestors of \<open>d\<close> that are strictly below \<open>base_path\<close>, shallowest
      first.\<close>
  "ancestors_below base_path d =
     filter (strictly_below base_path)
       (map (\<lambda>k. d\<lparr>tail := take k (tail d)\<rparr>) [0..<length (tail d)])"

fun dir_headers :: "printed list \<Rightarrow> path list" where
  \<comment> \<open>The directories whose header the Tree Printer has printed, in the order of printing.\<close>
  "dir_headers [] = []"
| "dir_headers (Dir_header d t # out) = d # dir_headers out"
| "dir_headers (x # out) = dir_headers out"

fun tree_subject :: "printed \<Rightarrow> path option" where
  \<comment> \<open>The path a line of the tree is about.\<close>
  "tree_subject (Dir_header d t) = Some d"
| "tree_subject (File_line p t) = Some p"
| "tree_subject x = None"

fun is_header_of :: "path \<Rightarrow> printed \<Rightarrow> bool" where
  "is_header_of d (Dir_header d' t) = (d' = d)"
| "is_header_of d x = False"

fun ordered_from :: "path \<Rightarrow> path set \<Rightarrow> printed list \<Rightarrow> bool" where
  \<comment> \<open>Reading the output from the left with the set of headers seen so far: every line
      about a path comes after the headers of all ancestors of that path.\<close>
  "ordered_from b seen [] = True"
| "ordered_from b seen (x # out) =
     ((case tree_subject x of None \<Rightarrow> True | Some d \<Rightarrow> set (ancestors_below b d) \<subseteq> seen)
      \<and> ordered_from b (seen \<union> set (dir_headers [x])) out)"

definition subdirs :: "filesystem \<Rightarrow> path \<Rightarrow> string list \<Rightarrow> string list" where
  \<comment> \<open>The specification's list of subdirectories: the names among \<open>names\<close> of the
      directories outside the coarse exclusion set, in alphabetical order (the order of
      code points, which is Python's order on \<^verbatim>\<open>str\<close>).\<close>
  "subdirs fs base_path names =
     sort (filter (\<lambda>n. is_dir fs (child base_path n) \<and> n \<notin> summary_exclude_dirs) names)"

definition spec_children :: "filesystem \<Rightarrow> path \<Rightarrow> string list \<Rightarrow> printed list" where
  \<comment> \<open>The specification's listing of the children \<open>names\<close> of \<open>item\<close>: the directories
      in alphabetical order, then the other entries in alphabetical order.\<close>
  "spec_children fs item names =
     map (\<lambda>n. sub_item_line fs (child item n))
       (sort (filter (\<lambda>n. is_dir fs (child item n)) names)
        @ sort (filter (\<lambda>n. \<not> is_dir fs (child item n)) names))"

definition spec_summary ::
  "filesystem \<Rightarrow> path \<Rightarrow> string list \<Rightarrow> (string \<Rightarrow> string list) \<Rightarrow> printed list" where
  \<comment> \<open>The specification's summary of a base directory with the entries \<open>names\<close>, where
      \<open>children_of n\<close> are the entries of the subdirectory \<open>n\<close>.\<close>
  "spec_summary fs base_path names children_of =
     summary_banner @
     (if subdirs fs base_path names = [] then [no_subdirs_line]
      else concat (map (\<lambda>n. section_line (child base_path n)
                              # spec_children fs (child base_path n) (children_of n))
                     (subdirs fs base_path names)))"

fun summary_subject :: "printed \<Rightarrow> path option" where
  "summary_subject (Section p t) = Some p"
| "summary_subject (Sub_dir p t) = Some p"
| "summary_subject (Sub_file p t) = Some p"
| "summary_subject x = None"

fun first_raised :: "(path \<Rightarrow> exn option) \<Rightarrow> path list \<Rightarrow> exn option" where
  \<comment> \<open>The first exception \<^verbatim>\<open>is_dir()\<close> raises on the paths of a list, if any.\<close>
  "first_raised raises [] = None"
| "first_raised raises (p # ps) =
     (case raises p of Some e \<Rightarrow> Some e | None \<Rightarrow> first_raised raises ps)"

definition reading :: "(path \<Rightarrow> exn option) \<Rightarrow> filesystem \<Rightarrow> path \<Rightarrow> exn + string list" where
  \<comment> \<open>What reading the entries of the directory \<open>d\<close> gives: their names, or the first
      exception, raised by the listing itself or by \<^verbatim>\<open>is_dir()\<close> on an entry.\<close>
  "reading raises fs d =
     (case listdir fs d of
        Inl e \<Rightarrow> Inl e
      | Inr names \<Rightarrow>
          (case first_raised raises (map (child d) names) of
             Some e \<Rightarrow> Inl e
           | None \<Rightarrow> Inr names))"

definition spec_section :: "(path \<Rightarrow> exn option) \<Rightarrow> filesystem \<Rightarrow> path \<Rightarrow> printed list" where
  \<comment> \<open>The specification's section of a subdirectory: its header, and its entries or, when
      reading them raises, the line \<^verbatim>\<open>(Permission denied)\<close> in their place.\<close>
  "spec_section raises fs item =
     section_line item #
     (case reading raises fs item of
        Inr names \<Rightarrow> spec_children fs item names
      | Inl e \<Rightarrow> [denied_line])"

fun is_permission_error :: "exn \<Rightarrow> bool" where
  "is_permission_error (PermissionError m) = True"
| "is_permission_error e = False"

subsection \<open>What one round of the Tree Printer's loop does, in closed form\<close>

definition chain :: "path \<Rightarrow> string list \<Rightarrow> path list" where
  \<comment> \<open>The values of \<^verbatim>\<open>current\<close> on the way from \<open>below b rel\<close> up to \<open>b\<close>.\<close>
  "chain b rel = map (\<lambda>k. below b (take k rel)) (rev [1..<Suc (length rel)])"

definition new_dirs :: "filesystem \<Rightarrow> path \<Rightarrow> string list \<Rightarrow> path set \<Rightarrow> path list" where
  "new_dirs fs b rel shown = filter (\<lambda>q. is_dir fs q \<and> q \<notin> shown) (chain b rel)"

definition new_rels ::
  "filesystem \<Rightarrow> path \<Rightarrow> string list \<Rightarrow> path set \<Rightarrow> nat \<Rightarrow> string list list" where
  "new_rels fs b rel shown m =
     filter (\<lambda>r. is_dir fs (below b r) \<and> below b r \<notin> shown) (map (\<lambda>k. take k rel) [1..<m])"

definition hdr :: "path \<Rightarrow> string list \<Rightarrow> printed" where
  "hdr b r =
     Dir_header (below b r) (indent (length r) @ folder_mark @ '' '' @ name (below b r) @ ''/'')"

definition file_out :: "filesystem \<Rightarrow> path \<Rightarrow> string list \<Rightarrow> printed list" where
  "file_out fs b rel =
     (if is_file fs (below b rel)
      then [File_line (below b rel) (indent (length rel) @ page_mark @ '' '' @ name (below b rel))]
      else [])"

subsection \<open>Permuted enumerations and failing listings\<close>


fun readable_or_denied :: "exn + string list \<Rightarrow> bool" where
  \<comment> \<open>A listing that succeeds or raises \<^verbatim>\<open>PermissionError\<close>.\<close>
  "readable_or_denied (Inr names) = True"
| "readable_or_denied (Inl (PermissionError m)) = True"
| "readable_or_denied (Inl e) = False"


subsection \<open>Example filesystems\<close>

text \<open>
  \<open>example_fs\<close> is the directory \<^verbatim>\<open>/proj\<close> with a file \<^verbatim>\<open>README.md\<close>, a directory
  \<^verbatim>\<open>src\<close> holding \<^verbatim>\<open>util.py\<close> and \<^verbatim>\<open>app/main.py\<close>, a directory \<^verbatim>\<open>x.tmp\<close>
  holding \<^verbatim>\<open>keep.py\<close>, a directory \<^verbatim>\<open>node_modules\<close> holding \<^verbatim>\<open>left.js\<close>, and a
  directory \<^verbatim>\<open>locked\<close> that may not be read. \<open>example_tree\<close> and \<open>example_summary\<close>
  are what the two printers print for it. \<open>ab_fs\<close> is the specification's example: a directory
  \<^verbatim>\<open>a\<close> with the files \<^verbatim>\<open>x\<close> and \<^verbatim>\<open>y\<close>, and an empty directory \<^verbatim>\<open>b\<close>.
\<close>

definition example_base :: path where
  "example_base = \<lparr>anchor = ''/'', tail = [''proj'']\<rparr>"

definition example_dirs :: "string list list" where
  "example_dirs = [[''src''], [''src'', ''app''], [''x.tmp''], [''node_modules''], [''locked'']]"

definition example_files :: "string list list" where
  "example_files =
     [[''README.md''], [''src'', ''util.py''], [''src'', ''app'', ''main.py''],
      [''x.tmp'', ''keep.py''], [''node_modules'', ''left.js'']]"

definition example_fs :: filesystem where
  "example_fs =
     \<lparr>rglob = (\<lambda>b. map (below b)
                 [[''src''], [''README.md''], [''src'', ''util.py''], [''src'', ''app''],
                  [''src'', ''app'', ''main.py''], [''x.tmp''], [''x.tmp'', ''keep.py''],
                  [''node_modules''], [''node_modules'', ''left.js''], [''locked'']]),
      listdir = (\<lambda>d.
         if d = example_base then Inr [''src'', ''README.md'', ''x.tmp'', ''node_modules'', ''locked'']
         else if d = below example_base [''src''] then Inr [''util.py'', ''app'']
         else if d = below example_base [''x.tmp''] then Inr [''keep.py'']
         else if d = below example_base [''locked'']
           then Inl (PermissionError ''[Errno 13] Permission denied'')
         else Inl (OtherError ''[Errno 20] Not a directory'')),
      is_dir = (\<lambda>p. p \<in> below example_base ` set example_dirs),
      is_file = (\<lambda>p. p \<in> below example_base ` set example_files)\<rparr>"

definition example_tree :: "printed list" where
  "example_tree =
     tree_banner @
     [File_line (below example_base [''README.md'']) (page_mark @ '' README.md''),
      Dir_header (below example_base [''locked'']) (folder_mark @ '' locked/''),
      Dir_header (below example_base [''src'']) (folder_mark @ '' src/''),
      Dir_header (below example_base [''src'', ''app'']) (''  '' @ folder_mark @ '' app/''),
      File_line (below example_base [''src'', ''app'', ''main.py''])
        (''    '' @ page_mark @ '' main.py''),
      File_line (below example_base [''src'', ''util.py'']) (''  '' @ page_mark @ '' util.py''),
      Dir_header (below example_base [''x.tmp'']) (folder_mark @ '' x.tmp/''),
      File_line (below example_base [''x.tmp'', ''keep.py'']) (''  '' @ page_mark @ '' keep.py'')]"

definition example_summary :: "printed list" where
  "example_summary =
     summary_banner @
     [section_line (below example_base [''locked'']),
      denied_line,
      section_line (below example_base [''src'']),
      Sub_dir (below example_base [''src'', ''app'']) (''  '' @ folder_mark @ '' app/''),
      Sub_file (below example_base [''src'', ''util.py'']) (''  '' @ page_mark @ '' util.py''),
      section_line (below example_base [''x.tmp'']),
      Sub_file (below example_base [''x.tmp'', ''keep.py'']) (''  '' @ page_mark @ '' keep.py'')]"

definition ab_fs :: filesystem where
  "ab_fs =
     \<lparr>rglob = (\<lambda>b. map (below b) [[''b''], [''a'', ''y''], [''a''], [''a'', ''x'']]),
      listdir = (\<lambda>d.
         if d = example_base then Inr [''b'', ''a'']
         else if d = below example_base [''a''] then Inr [''y'', ''x'']
         else if d = below example_base [''b''] then Inr []
         else Inl (OtherError ''[Errno 20] Not a directory'')),
      is_dir = (\<lambda>p. p \<in> below example_base ` {[''a''], [''b'']}),
      is_file = (\<lambda>p. p \<in> below example_base ` {[''a'', ''x''], [''a'', ''y'']})\<rparr>"

definition ab_children :: "string \<Rightarrow> string list" where
  "ab_children n = (if n = ''a'' then [''y'', ''x''] else [])"

definition empty_fs :: filesystem where
  \<comment> \<open>An empty base directory.\<close>
  "empty_fs =
     \<lparr>rglob = (\<lambda>b. []), listdir = (\<lambda>d. Inr []), is_dir = (\<lambda>p. False), is_file = (\<lambda>p. False)\<rparr>"

definition example_names :: "string list" where
  "example_names = [''src'', ''README.md'', ''x.tmp'', ''node_modules'', ''locked'']"

definition example_raises :: "path \<Rightarrow> exn option" where
  \<comment> \<open>\<^verbatim>\<open>is_dir()\<close> may not look at \<^verbatim>\<open>x.tmp/keep.py\<close>, in a directory whose listing succeeds.\<close>
  "example_raises p =
     (if p = below example_base [''x.tmp'', ''keep.py'']
      then Some (PermissionError
                   (''[Errno 13] Permission denied: '' @ [CHR 0x27] @ ''/proj/x.tmp/keep.py'' @ [CHR 0x27]))
      else None)"

definition io_error :: exn where
  "io_error = OtherError (''[Errno 5] Input/output error: '' @ [CHR 0x27] @ ''/proj/src'' @ [CHR 0x27])"

definition broken_fs :: filesystem where
  \<comment> \<open>\<open>example_fs\<close> with a directory \<^verbatim>\<open>src\<close> whose listing fails with an error other than
      \<^verbatim>\<open>PermissionError\<close>.\<close>
  "broken_fs =
     example_fs\<lparr>listdir := (\<lambda>d. if d = below example_base [''src''] then Inl io_error
                                 else listdir example_fs d)\<rparr>"

definition no_such_directory :: exn where
  "no_such_directory =
     OtherError (''[Errno 2] No such file or directory: '' @ [CHR 0x27] @ ''/proj'' @ [CHR 0x27])"

definition absent_fs :: filesystem where
  \<comment> \<open>A base directory that does not exist.\<close>
  "absent_fs =
     \<lparr>rglob = (\<lambda>b. []), listdir = (\<lambda>d. Inl no_such_directory),
      is_dir = (\<lambda>p. False), is_file = (\<lambda>p. False)\<rparr>"

section \<open>Properties of the Filter\<close>

lemma parts_child: "parts (child d n) = parts d @ [n]"
  by (simp add: parts_def child_def)

lemma name_child: "name (child d n) = n"
  by (simp add: name_def child_def)

lemma endswith_iff: "endswith s suf \<longleftrightarrow> (\<exists>pre. s = pre @ suf)"
  unfolding endswith_def
proof
  assume "length suf \<le> length s \<and> drop (length s - length suf) s = suf"
  then have "s = take (length s - length suf) s @ suf"
    by (metis append_take_drop_id)
  then show "\<exists>pre. s = pre @ suf" ..
next
  assume "\<exists>pre. s = pre @ suf"
  then show "length suf \<le> length s \<and> drop (length s - length suf) s = suf"
    by auto
qed

lemma startswith_star: "startswith pattern ''*'' \<longleftrightarrow> pattern \<noteq> [] \<and> hd pattern = CHR ''*''"
  by (cases pattern) (simp_all add: startswith_def)

lemma spec_matches_star: "spec_matches (CHR ''*'' # rest) (pre @ rest)"
  unfolding spec_matches_def by auto

lemma pattern_loop_iff:
  "pattern_loop pats n \<longleftrightarrow> \<not> (\<exists>pattern \<in> set pats. spec_matches pattern n)"
  by (induction pats) (auto simp: spec_matches_def startswith_star endswith_iff drop_Suc)

lemma pattern_loop_order:
  "set pats = set pats' \<Longrightarrow> pattern_loop pats n = pattern_loop pats' n"
  by (simp add: pattern_loop_iff)

lemma suffix_css_map: "suffix (child d ''app.css.map'') = ''.map''"
  by (simp add: suffix_def name_child rfind_def)

lemma suffix_main_py: "suffix (child d ''main.py'') = ''.py''"
  by (simp add: suffix_def name_child rfind_def)

lemma pattern_loop_main_py: "pattern_loop auto_generated_files ''main.py''"
  by (simp add: auto_generated_files_def startswith_def endswith_def)

text \<open>
  Claim C4. A path with a segment in the excluded-directory set, or with a segment equal
  to \<^verbatim>\<open>build\<close> or to \<^verbatim>\<open>static\<close>, is excluded by the Filter, whatever its name
  and suffix are.
\<close>

theorem should_include_excluded_segment:
  assumes "\<exists>part \<in> set (parts p). part \<in> exclude_dirs \<or> part = ''build'' \<or> part = ''static''"
  shows "should_include p = False"
  using assms unfolding should_include_def by auto

theorem should_include_excluded_segment_witness:
  "(\<exists>part \<in> set (parts \<lparr>anchor = ''/'', tail = [''app'', ''static'', ''main.py'']\<rparr>).
      part \<in> exclude_dirs \<or> part = ''build'' \<or> part = ''static'')
   \<and> should_include \<lparr>anchor = ''/'', tail = [''app'', ''static'', ''main.py'']\<rparr> = False"
proof -
  have h: "\<exists>part \<in> set (parts \<lparr>anchor = ''/'', tail = [''app'', ''static'', ''main.py'']\<rparr>).
      part \<in> exclude_dirs \<or> part = ''build'' \<or> part = ''static''"
    by (simp add: parts_def)
  from should_include_excluded_segment [OF h] h show ?thesis by blast
qed

text \<open>
  Claim C5. The loop over the auto-generated-file patterns finds a match exactly when
  some pattern matches the base name in the specification's sense: a pattern beginning
  with \<^verbatim>\<open>*\<close> matches the names ending with the rest of the pattern, every other
  pattern matches only the name equal to it. A path whose base name matches a pattern of
  the set is excluded by the Filter. (The two \<^verbatim>\<open>*\<close> patterns of the set end in
  \<^verbatim>\<open>.map\<close>, so in the Filter the extension rule has already excluded every name
  they match.)
\<close>

theorem pattern_match_excludes:
  "(pattern_loop pats n \<longleftrightarrow> \<not> (\<exists>pattern \<in> set pats. spec_matches pattern n))
   \<and> ((\<exists>pattern \<in> set auto_generated_files. spec_matches pattern (name p))
        \<longrightarrow> should_include p = False)"
  unfolding should_include_def by (simp add: pattern_loop_iff)

theorem pattern_match_excludes_witness:
  "spec_matches ''*.js.map'' ''bundle.js.map''
   \<and> pattern_loop [''robots.txt'', ''*.js.map''] ''bundle.js.map'' = False
   \<and> pattern_loop [''robots.txt'', ''*.js.map''] ''bundle.js'' = True
   \<and> spec_matches ''robots.txt'' (name \<lparr>anchor = [], tail = [''public'', ''robots.txt'']\<rparr>)
   \<and> should_include \<lparr>anchor = [], tail = [''public'', ''robots.txt'']\<rparr> = False"
proof -
  have m: "spec_matches ''*.js.map'' ''bundle.js.map''"
    using spec_matches_star [of "''.js.map''" "''bundle''"] by simp
  have n: "\<not> (\<exists>pattern \<in> set [''robots.txt'', ''*.js.map'']. spec_matches pattern ''bundle.js'')"
    by (simp add: spec_matches_def)
  have r: "spec_matches ''robots.txt'' (name \<lparr>anchor = [], tail = [''public'', ''robots.txt'']\<rparr>)"
    by (simp add: spec_matches_def name_def)
  have a: "\<exists>pattern \<in> set auto_generated_files.
      spec_matches pattern (name \<lparr>anchor = [], tail = [''public'', ''robots.txt'']\<rparr>)"
    using r by (simp add: auto_generated_files_def)
  have b: "\<exists>pattern \<in> set [''robots.txt'', ''*.js.map'']. spec_matches pattern ''bundle.js.map''"
    using m by simp
  show ?thesis
    using pattern_match_excludes
        [of "[''robots.txt'', ''*.js.map'']" "''bundle.js.map''"
            "\<lparr>anchor = [], tail = [''public'', ''robots.txt'']\<rparr>"]
      pattern_match_excludes
        [of "[''robots.txt'', ''*.js.map'']" "''bundle.js''"
            "\<lparr>anchor = [], tail = [''public'', ''robots.txt'']\<rparr>"]
      m n r a b
    by blast
qed

text \<open>
  Claim C7. In a directory none of whose segments meets a directory-exclusion rule, the
  Filter excludes \<^verbatim>\<open>LICENSE.txt\<close> and \<^verbatim>\<open>app.css.map\<close> and includes
  \<^verbatim>\<open>main.py\<close>. The name \<^verbatim>\<open>app.css.map\<close> matches the suffix pattern
  \<^verbatim>\<open>*.css.map\<close> (the pattern loop returns on it), and its suffix \<^verbatim>\<open>.map\<close> is an
  excluded extension as well.
\<close>

theorem should_include_examples:
  assumes "\<forall>part \<in> set (parts d). part \<notin> exclude_dirs \<and> part \<noteq> ''build'' \<and> part \<noteq> ''static''"
  shows "should_include (child d ''LICENSE.txt'') = False
       \<and> should_include (child d ''app.css.map'') = False
       \<and> pattern_loop auto_generated_files ''app.css.map'' = False
       \<and> should_include (child d ''main.py'') = True"
proof -
  have 1: "should_include (child d ''LICENSE.txt'') = False"
    unfolding should_include_def
    by (simp add: name_child auto_generated_files_def startswith_def endswith_def)
  have 2: "should_include (child d ''app.css.map'') = False"
    unfolding should_include_def by (simp add: suffix_css_map exclude_extensions_def)
  have 3: "pattern_loop auto_generated_files ''app.css.map'' = False"
    by (simp add: auto_generated_files_def startswith_def endswith_def)
  have "\<not> (\<exists>part \<in> set (parts (child d ''main.py'')). part \<in> exclude_dirs)"
    using assms by (auto simp: parts_child exclude_dirs_def)
  moreover have "name (child d ''main.py'') \<notin> exclude_files"
    by (simp add: name_child exclude_files_def)
  moreover have "suffix (child d ''main.py'') \<notin> exclude_extensions"
    by (simp add: suffix_main_py exclude_extensions_def)
  moreover have "pattern_loop auto_generated_files (name (child d ''main.py''))"
    by (simp add: name_child pattern_loop_main_py)
  moreover have "\<not> (''build'' \<in> set (parts (child d ''main.py''))
      \<or> ''static'' \<in> set (parts (child d ''main.py'')))"
    using assms by (auto simp: parts_child)
  ultimately have 4: "should_include (child d ''main.py'') = True"
    unfolding should_include_def by simp
  from 1 2 3 4 show ?thesis by blast
qed

theorem should_include_examples_witness:
  "should_include (child \<lparr>anchor = ''/'', tail = [''home'', ''app'', ''src'']\<rparr> ''LICENSE.txt'') = False
   \<and> should_include (child \<lparr>anchor = ''/'', tail = [''home'', ''app'', ''src'']\<rparr> ''app.css.map'') = False
   \<and> should_include (child \<lparr>anchor = ''/'', tail = [''home'', ''app'', ''src'']\<rparr> ''main.py'') = True"
proof -
  have h: "\<forall>part \<in> set (parts \<lparr>anchor = ''/'', tail = [''home'', ''app'', ''src'']\<rparr>).
      part \<notin> exclude_dirs \<and> part \<noteq> ''build'' \<and> part \<noteq> ''static''"
    by (simp add: parts_def exclude_dirs_def)
  from should_include_examples [OF h] show ?thesis by blast
qed

text \<open>
  Claim C8. A path whose suffix is in the excluded-extension set is excluded by the
  Filter.
\<close>

theorem should_include_excluded_extension:
  assumes "suffix p \<in> exclude_extensions"
  shows "should_include p = False"
  using assms unfolding should_include_def by auto

theorem should_include_excluded_extension_witness:
  "suffix \<lparr>anchor = [], tail = [''src'', ''debug.log'']\<rparr> \<in> exclude_extensions
   \<and> should_include \<lparr>anchor = [], tail = [''src'', ''debug.log'']\<rparr> = False"
proof -
  have h: "suffix \<lparr>anchor = [], tail = [''src'', ''debug.log'']\<rparr> \<in> exclude_extensions"
    by (simp add: suffix_def name_def rfind_def exclude_extensions_def)
  from should_include_excluded_extension [OF h] h show ?thesis by blast
qed

section \<open>Properties of the Tree Printer and the Summary Printer\<close>

lemma below_Nil [simp]: "below b [] = b"
  by (simp add: below_def)

lemma below_neq [simp]: "rel \<noteq> [] \<Longrightarrow> below b rel \<noteq> b"
  by (cases b) (simp add: below_def)

lemma tail_below [simp]: "tail (below b rel) = tail b @ rel"
  by (simp add: below_def)

lemma anchor_below [simp]: "anchor (below b rel) = anchor b"
  by (simp add: below_def)

lemma below_inj [simp]: "below b r = below b r' \<longleftrightarrow> r = r'"
  by (cases b) (simp add: below_def)

lemma parent_below_snoc [simp]: "parent (below b (rel @ [x])) = below b rel"
  by (simp add: parent_def below_def butlast_append)

lemma relative_to_below [simp]: "relative_to (below b rel) b = Some rel"
  by (simp add: relative_to_def)

lemma strictly_below_iff: "strictly_below b p \<longleftrightarrow> (\<exists>rel. rel \<noteq> [] \<and> p = below b rel)"
proof
  assume "strictly_below b p"
  then obtain s rel where r: "relative_to p b = Some (s # rel)"
    by (auto simp: strictly_below_def split: option.splits list.splits)
  then have "anchor p = anchor b" "take (length (tail b)) (tail p) = tail b"
    "drop (length (tail b)) (tail p) = s # rel"
    by (auto simp: relative_to_def split: if_splits)
  then have "tail p = tail b @ (s # rel)"
    by (metis append_take_drop_id)
  with \<open>anchor p = anchor b\<close> have "p = below b (s # rel)"
    by (cases p, cases b) (simp add: below_def)
  then show "\<exists>rel. rel \<noteq> [] \<and> p = below b rel" by blast
next
  assume "\<exists>rel. rel \<noteq> [] \<and> p = below b rel"
  then show "strictly_below b p"
    by (auto simp: strictly_below_def split: list.splits)
qed

lemma chain_Nil [simp]: "chain b [] = []"
  by (simp add: chain_def)

lemma chain_snoc: "chain b (rel @ [x]) = below b (rel @ [x]) # chain b rel"
  by (auto simp: chain_def)

lemma notin_chain: "below b (rel @ [x]) \<notin> set (chain b rel)"
  by (auto simp: chain_def dest!: arg_cong [where f = length])

lemma new_dirs_insert:
  "new_dirs fs b rel (insert (below b (rel @ [x])) shown) = new_dirs fs b rel shown"
  unfolding new_dirs_def using notin_chain [of b rel x]
  by (intro filter_cong) auto

lemma walk_below:
  "walk_up fs b (below b rel) (ds, shown) =
     Some (ds @ new_dirs fs b rel shown, shown \<union> set (new_dirs fs b rel shown))"
proof (induction rel arbitrary: ds shown rule: rev_induct)
  case Nil
  show ?case by (subst walk_up.simps) (simp add: new_dirs_def)
next
  case (snoc x rel)
  show ?case
    apply (subst walk_up.simps)
    apply (simp add: snoc.IH new_dirs_insert)
    apply (auto simp: new_dirs_def chain_snoc)
    done
qed

lemma level_of_below [simp]: "level_of (below b r) b = Inr (length r)"
  by (simp add: level_of_def)

lemma print_dirs_below: "print_dirs b (map (below b) rs) = Inr (map (hdr b) rs)"
  by (induction rs) (simp_all add: hdr_def)

lemma print_dirs_headers: "print_dirs b ds = Inr hs \<Longrightarrow> dir_headers hs = ds"
  by (induction ds arbitrary: hs) (auto split: sum.splits)

lemma print_file_headers: "print_file fs b p = Inr fl \<Longrightarrow> dir_headers fl = []"
  by (auto simp: print_file_def split: if_splits sum.splits)

lemma dir_headers_append [simp]: "dir_headers (xs @ ys) = dir_headers xs @ dir_headers ys"
  by (induction xs rule: dir_headers.induct) simp_all

lemma dir_headers_hdr [simp]: "dir_headers (map (hdr b) rs) = map (below b) rs"
  by (induction rs) (simp_all add: hdr_def)

lemma walk_up_new:
  assumes "walk_up fs b cur st = Some st'"
  shows "\<exists>new. fst st' = fst st @ new \<and> snd st' = snd st \<union> set new
        \<and> distinct new \<and> set new \<inter> snd st = {}"
  using assms
proof (induction rule: walk_up.raw_induct [rotated 1, consumes 1])
  case (1 walk fs b cur st st')
  show ?case
  proof (cases "cur = b")
    case True
    with 1(2) show ?thesis by simp
  next
    case False
    let ?st = "if is_dir fs cur \<and> cur \<notin> snd st
               then (fst st @ [cur], insert cur (snd st)) else st"
    from False 1(2) have "walk fs b (parent cur) ?st = Some st'" by simp
    from 1(1) [OF this] obtain new where
      n: "fst st' = fst ?st @ new" "snd st' = snd ?st \<union> set new"
         "distinct new" "set new \<inter> snd ?st = {}"
      by blast
    show ?thesis
    proof (cases "is_dir fs cur \<and> cur \<notin> snd st")
      case True
      with n have "fst st' = fst st @ (cur # new)" "snd st' = snd st \<union> set (cur # new)"
        "distinct (cur # new)" "set (cur # new) \<inter> snd st = {}"
        by auto
      then show ?thesis by blast
    next
      case False
      with n show ?thesis by auto
    qed
  qed
qed

lemma ordered_from_append:
  "ordered_from b seen (xs @ ys) \<longleftrightarrow>
     ordered_from b seen xs \<and> ordered_from b (seen \<union> set (dir_headers xs)) ys"
proof (induction xs arbitrary: seen)
  case Nil
  show ?case by simp
next
  case (Cons x xs)
  have "dir_headers (x # xs) = dir_headers [x] @ dir_headers xs"
    using dir_headers_append [of "[x]" xs] by simp
  then show ?case
    by (simp add: Cons.IH Un_assoc del: dir_headers.simps)
qed

lemma is_header_of_iff:
  "(\<exists>j < length out. is_header_of a (out ! j)) \<longleftrightarrow> a \<in> set (dir_headers out)"
proof (induction out)
  case Nil
  show ?case by simp
next
  case (Cons x out)
  then show ?case
    by (cases x) (auto simp: less_Suc_eq_0_disj)
qed

lemma ordered_from_take:
  "ordered_from b seen out \<Longrightarrow> i < length out \<Longrightarrow> tree_subject (out ! i) = Some d \<Longrightarrow>
     set (ancestors_below b d) \<subseteq> seen \<union> set (dir_headers (take i out))"
proof -
  assume o: "ordered_from b seen out" and i: "i < length out"
    and s: "tree_subject (out ! i) = Some d"
  from i have "out = take i out @ (out ! i) # drop (Suc i) out"
    by (simp add: id_take_nth_drop)
  with o have "ordered_from b seen (take i out @ (out ! i) # drop (Suc i) out)"
    by simp
  then have "ordered_from b (seen \<union> set (dir_headers (take i out))) ((out ! i) # drop (Suc i) out)"
    unfolding ordered_from_append by blast
  with s show ?thesis by simp
qed

lemma ordered_from_index:
  assumes "ordered_from b {} out" "i < length out" "tree_subject (out ! i) = Some d"
    "a \<in> set (ancestors_below b d)"
  shows "\<exists>j<i. is_header_of a (out ! j)"
proof -
  from ordered_from_take [OF assms(1-3)] assms(4)
  have "a \<in> set (dir_headers (take i out))" by auto
  then obtain j where "j < length (take i out)" "is_header_of a (take i out ! j)"
    using is_header_of_iff [where out = "take i out" and a = a] by blast
  then show ?thesis by auto
qed

lemma truncate_below:
  "length (tail b) \<le> k \<Longrightarrow>
     (below b r)\<lparr>tail := take k (tail (below b r))\<rparr> = below b (take (k - length (tail b)) r)"
  by (simp add: below_def)

lemma truncate_not_below:
  "k \<le> length (tail b) \<Longrightarrow> \<not> strictly_below b ((below b r)\<lparr>tail := take k (tail (below b r))\<rparr>)"
  by (simp add: strictly_below_def relative_to_def below_def split: list.splits)

lemma strictly_below_below [simp]: "strictly_below b (below b r) \<longleftrightarrow> r \<noteq> []"
  by (simp add: strictly_below_def split: list.splits)

lemma set_ancestors_below:
  "set (ancestors_below b (below b r)) = (\<lambda>j. below b (take j r)) ` {0<..<length r}"
proof (intro set_eqI iffI)
  fix a
  assume "a \<in> set (ancestors_below b (below b r))"
  then obtain k where k: "k < length (tail b) + length r"
    "a = (below b r)\<lparr>tail := take k (tail (below b r))\<rparr>" "strictly_below b a"
    by (auto simp: ancestors_below_def)
  from k(2,3) truncate_not_below [of k b r] have "length (tail b) < k"
    by (cases "k \<le> length (tail b)") auto
  with k(2) truncate_below [of b k r]
  have "a = below b (take (k - length (tail b)) r)" by simp
  moreover from k(1) \<open>length (tail b) < k\<close>
  have "k - length (tail b) \<in> {0<..<length r}" by auto
  ultimately show "a \<in> (\<lambda>j. below b (take j r)) ` {0<..<length r}" by blast
next
  fix a
  assume "a \<in> (\<lambda>j. below b (take j r)) ` {0<..<length r}"
  then obtain j where j: "0 < j" "j < length r" "a = below b (take j r)" by auto
  let ?k = "length (tail b) + j"
  from truncate_below [of b ?k r] j(3)
  have "a = (below b r)\<lparr>tail := take ?k (tail (below b r))\<rparr>" by simp
  moreover from j have "?k \<in> set [0..<length (tail (below b r))]" by simp
  moreover from j have "strictly_below b a" by auto
  ultimately show "a \<in> set (ancestors_below b (below b r))"
    unfolding ancestors_below_def by (auto simp del: tail_below)
qed

lemma rev_new_dirs:
  "rev (new_dirs fs b rel shown) = map (below b) (new_rels fs b rel shown (Suc (length rel)))"
  by (simp add: new_dirs_def new_rels_def chain_def rev_filter rev_map filter_map comp_def)

lemma print_file_below: "print_file fs b (below b rel) = Inr (file_out fs b rel)"
  by (simp add: print_file_def file_out_def)

lemma dir_headers_file_out [simp]: "dir_headers (file_out fs b rel) = []"
  by (simp add: file_out_def)

lemma tree_loop_below:
  "tree_loop fs b (below b rel # rest) (out, shown) =
     (if \<not> should_include (below b rel) then tree_loop fs b rest (out, shown)
      else tree_loop fs b rest
             (out @ map (hdr b) (new_rels fs b rel shown (Suc (length rel))) @ file_out fs b rel,
              shown \<union> below b ` set (new_rels fs b rel shown (Suc (length rel)))))"
proof -
  have "set (new_dirs fs b rel shown) = set (rev (new_dirs fs b rel shown))"
    by simp
  also have "\<dots> = below b ` set (new_rels fs b rel shown (Suc (length rel)))"
    unfolding rev_new_dirs by simp
  finally show ?thesis
    using walk_below [of fs b rel "[]" shown]
    by (simp add: rev_new_dirs print_dirs_below print_file_below)
qed

lemma new_rels_Suc:
  "0 < m \<Longrightarrow> new_rels fs b rel shown (Suc m) =
     new_rels fs b rel shown m @
       (if is_dir fs (below b (take m rel)) \<and> below b (take m rel) \<notin> shown
        then [take m rel] else [])"
  by (simp add: new_rels_def)

lemma new_rels_small [simp]: "new_rels fs b rel shown (Suc 0) = []"
  by (simp add: new_rels_def)

lemma ancestors_covered:
  assumes dirs: "\<forall>a \<in> set (ancestors_below b (below b rel)). is_dir fs a"
    and m: "m \<le> length rel"
    and a: "a \<in> set (ancestors_below b (below b (take m rel)))"
  shows "a \<in> shown \<union> below b ` set (new_rels fs b rel shown m)"
proof -
  from a obtain j where j0: "0 < j" "j < length (take m rel)"
      "a = below b (take j (take m rel))"
    unfolding set_ancestors_below by auto
  from j0(2) m have "j < m" by simp
  then have "take j (take m rel) = take j rel" by (simp add: min_def)
  with j0 \<open>j < m\<close> have j: "0 < j" "j < m" "a = below b (take j rel)" by simp_all
  with m have "a \<in> set (ancestors_below b (below b rel))"
    by (auto simp: set_ancestors_below)
  with dirs have "is_dir fs a" by blast
  show ?thesis
  proof (cases "a \<in> shown")
    case True
    then show ?thesis by simp
  next
    case False
    with \<open>is_dir fs a\<close> j have "take j rel \<in> set (new_rels fs b rel shown m)"
      by (auto simp: new_rels_def)
    with j(3) show ?thesis by blast
  qed
qed

lemma headers_ordered:
  assumes dirs: "\<forall>a \<in> set (ancestors_below b (below b rel)). is_dir fs a"
  shows "m \<le> length rel \<Longrightarrow> ordered_from b shown (map (hdr b) (new_rels fs b rel shown (Suc m)))"
proof (induction m)
  case 0
  show ?case by simp
next
  case (Suc m)
  then have IH: "ordered_from b shown (map (hdr b) (new_rels fs b rel shown (Suc m)))"
    by simp
  have "set (ancestors_below b (below b (take (Suc m) rel)))
          \<subseteq> shown \<union> below b ` set (new_rels fs b rel shown (Suc m))"
    using ancestors_covered [OF dirs Suc.prems] by blast
  with IH show ?case
    by (simp add: new_rels_Suc [of "Suc m"] ordered_from_append hdr_def [of b "take (Suc m) rel"])
qed

lemma step_ordered:
  assumes dirs: "\<forall>a \<in> set (ancestors_below b (below b rel)). is_dir fs a"
    and "rel \<noteq> []"
  shows "ordered_from b shown
           (map (hdr b) (new_rels fs b rel shown (Suc (length rel))) @ file_out fs b rel)"
proof -
  have 1: "ordered_from b shown (map (hdr b) (new_rels fs b rel shown (Suc (length rel))))"
    using headers_ordered [OF dirs, of "length rel"] by simp
  have "set (ancestors_below b (below b (take (length rel) rel)))
          \<subseteq> shown \<union> below b ` set (new_rels fs b rel shown (length rel))"
    using ancestors_covered [OF dirs, of "length rel"] by blast
  moreover have "set (new_rels fs b rel shown (length rel))
          \<subseteq> set (new_rels fs b rel shown (Suc (length rel)))"
    using \<open>rel \<noteq> []\<close> by (simp add: new_rels_Suc)
  ultimately have "set (ancestors_below b (below b rel))
          \<subseteq> shown \<union> below b ` set (new_rels fs b rel shown (Suc (length rel)))"
    by auto
  then have 2: "ordered_from b
          (shown \<union> set (dir_headers (map (hdr b) (new_rels fs b rel shown (Suc (length rel))))))
          (file_out fs b rel)"
    by (simp add: file_out_def)
  from 1 2 show ?thesis
    unfolding ordered_from_append by blast
qed

lemma tree_loop_total:
  "\<forall>p \<in> set ps. strictly_below b p \<Longrightarrow> \<exists>out'. tree_loop fs b ps (out, shown) = Some (Inr out')"
proof (induction ps arbitrary: out shown)
  case Nil
  show ?case by simp
next
  case (Cons p ps)
  from Cons.prems obtain rel where p: "p = below b rel"
    by (auto simp: strictly_below_iff)
  from Cons.prems have "\<forall>p \<in> set ps. strictly_below b p" by simp
  from Cons.IH [OF this] show ?case
    unfolding p tree_loop_below by simp
qed

lemma tree_loop_ordered:
  assumes "\<forall>p \<in> set ps. strictly_below b p"
    and "\<forall>p \<in> set ps. \<forall>a \<in> set (ancestors_below b p). is_dir fs a"
    and "shown = set (dir_headers out)"
    and "ordered_from b {} out"
  shows "\<exists>out'. tree_loop fs b ps (out, shown) = Some (Inr out') \<and> ordered_from b {} out'"
  using assms
proof (induction ps arbitrary: out shown)
  case Nil
  then show ?case by simp
next
  case (Cons p ps)
  from Cons.prems(1) obtain rel where p: "p = below b rel" and rel: "rel \<noteq> []"
    by (auto simp: strictly_below_iff)
  from Cons.prems have below: "\<forall>p \<in> set ps. strictly_below b p"
    and dirs: "\<forall>p \<in> set ps. \<forall>a \<in> set (ancestors_below b p). is_dir fs a"
    and here: "\<forall>a \<in> set (ancestors_below b (below b rel)). is_dir fs a"
    by (simp_all add: p)
  show ?case
  proof (cases "should_include (below b rel)")
    case False
    with Cons.IH [OF below dirs Cons.prems(3,4)] show ?thesis
      unfolding p tree_loop_below by simp
  next
    case True
    let ?new = "new_rels fs b rel shown (Suc (length rel))"
    let ?out = "out @ map (hdr b) ?new @ file_out fs b rel"
    have 1: "shown \<union> below b ` set ?new = set (dir_headers ?out)"
      using Cons.prems(3) by simp
    have 2: "ordered_from b {} ?out"
      using Cons.prems(3,4) step_ordered [OF here rel, of shown]
      by (simp add: ordered_from_append [of b "{}" out])
    from Cons.IH [OF below dirs 1 2] True show ?thesis
      unfolding p tree_loop_below by simp
  qed
qed

lemma tree_loop_distinct:
  "tree_loop fs b ps (out, shown) = Some (Inr out') \<Longrightarrow> set (dir_headers out) \<subseteq> shown \<Longrightarrow>
     distinct (dir_headers out) \<Longrightarrow> distinct (dir_headers out')"
proof (induction ps arbitrary: out shown)
  case Nil
  then show ?case by simp
next
  case (Cons p ps)
  show ?case
  proof (cases "should_include p")
    case False
    with Cons.prems(1) have "tree_loop fs b ps (out, shown) = Some (Inr out')" by simp
    from Cons.IH [OF this Cons.prems(2,3)] show ?thesis .
  next
    case True
    with Cons.prems(1) obtain ds shown' hs fl where
      w: "walk_up fs b p ([], shown) = Some (ds, shown')"
      and h: "print_dirs b (rev ds) = Inr hs"
      and f: "print_file fs b p = Inr fl"
      and t: "tree_loop fs b ps (out @ hs @ fl, shown') = Some (Inr out')"
      by (auto split: option.splits sum.splits prod.splits)
    from walk_up_new [OF w] have n: "shown' = shown \<union> set ds" "distinct ds" "set ds \<inter> shown = {}"
      by auto
    have d: "dir_headers (out @ hs @ fl) = dir_headers out @ rev ds"
      using print_dirs_headers [OF h] print_file_headers [OF f] by simp
    have 1: "set (dir_headers (out @ hs @ fl)) \<subseteq> shown'"
      unfolding d using n(1) Cons.prems(2) by auto
    have 2: "distinct (dir_headers (out @ hs @ fl))"
      unfolding d using n(2,3) Cons.prems(2,3) by auto
    from Cons.IH [OF t 1 2] show ?thesis .
  qed
qed

lemma dir_headers_banner [simp]: "dir_headers tree_banner = []"
  by (simp add: tree_banner_def)

lemma ordered_banner [simp]: "ordered_from b seen tree_banner"
  by (simp add: tree_banner_def)

lemma insort_key_map:
  "insort_key f (g x) (map g ys) = map g (insort_key (\<lambda>a. f (g a)) x ys)"
  by (induction ys) simp_all

lemma sort_key_map: "sort_key f (map g xs) = map g (sort_key (\<lambda>a. f (g a)) xs)"
  by (induction xs) (simp_all add: insort_key_map)

lemma sort_children: "sort_key name (map (child d) ns) = map (child d) (sort ns)"
  by (simp add: sort_key_map name_child)

lemma sorted_tagged: "sorted (map (\<lambda>x. (c :: bool, f x)) ys) = sorted (map f ys)"
  by (induction ys) auto

lemma sort_dirs_first:
  "sort_key (\<lambda>x. (\<not> P x, f x)) xs = sort_key f (filter P xs) @ sort_key f (filter (\<lambda>x. \<not> P x) xs)"
proof (rule properties_for_sort_key)
  show "mset (sort_key f (filter P xs) @ sort_key f (filter (\<lambda>x. \<not> P x) xs)) = mset xs"
    by simp
next
  show "sorted (map (\<lambda>x. (\<not> P x, f x))
          (sort_key f (filter P xs) @ sort_key f (filter (\<lambda>x. \<not> P x) xs)))"
  proof -
    have a: "map (\<lambda>x. (\<not> P x, f x)) (sort_key f (filter P xs))
           = map (\<lambda>x. (False, f x)) (sort_key f (filter P xs))"
      by (rule map_cong) auto
    have b: "map (\<lambda>x. (\<not> P x, f x)) (sort_key f (filter (\<lambda>x. \<not> P x) xs))
           = map (\<lambda>x. (True, f x)) (sort_key f (filter (\<lambda>x. \<not> P x) xs))"
      by (rule map_cong) auto
    show ?thesis
      unfolding map_append a b sorted_append sorted_tagged
      by auto
  qed
next
  fix k
  assume "k \<in> set (sort_key f (filter P xs) @ sort_key f (filter (\<lambda>x. \<not> P x) xs))"
  have 1: "filter (\<lambda>x. (\<not> P k, f k) = (\<not> P x, f x)) (sort_key f (filter Q xs))
         = filter (\<lambda>x. (\<not> P k, f k) = (\<not> P x, f x)) (filter Q xs)" for Q
  proof -
    have "filter (\<lambda>x. (\<not> P k, f k) = (\<not> P x, f x)) (sort_key f (filter Q xs))
        = filter (\<lambda>x. P x = P k) (filter (\<lambda>x. f x = f k) (sort_key f (filter Q xs)))"
      by (auto intro: filter_cong)
    also have "\<dots> = filter (\<lambda>x. P x = P k) (filter (\<lambda>x. f x = f k) (filter Q xs))"
      by (simp only: sort_key_stable)
    also have "\<dots> = filter (\<lambda>x. (\<not> P k, f k) = (\<not> P x, f x)) (filter Q xs)"
      by (auto intro: filter_cong)
    finally show ?thesis .
  qed
  show "filter (\<lambda>x. (\<not> P k, f k) = (\<not> P x, f x))
          (sort_key f (filter P xs) @ sort_key f (filter (\<lambda>x. \<not> P x) xs))
      = filter (\<lambda>x. (\<not> P k, f k) = (\<not> P x, f x)) xs"
    unfolding filter_append 1
    by (induction xs) auto
qed

lemma sorted_items:
  "sort_key name (filter (\<lambda>item. is_dir fs item \<and> name item \<notin> summary_exclude_dirs)
                    (map (child b) names))
   = map (child b) (subdirs fs b names)"
  by (simp add: filter_map comp_def name_child sort_children subdirs_def)

lemma items_Nil:
  "filter (\<lambda>item. is_dir fs item \<and> name item \<notin> summary_exclude_dirs) (map (child b) names) = []
   \<longleftrightarrow> subdirs fs b names = []"
proof -
  let ?items = "filter (\<lambda>item. is_dir fs item \<and> name item \<notin> summary_exclude_dirs)
                  (map (child b) names)"
  have "length (sort_key name ?items) = length (map (child b) (subdirs fs b names))"
    by (simp only: sorted_items)
  then have "length ?items = length (subdirs fs b names)"
    by simp
  then show ?thesis
    by (metis length_0_conv)
qed

lemma summary_body_readable:
  assumes "listdir fs item = Inr ns"
  shows "summary_body fs item = (section_line item # spec_children fs item ns, None)"
proof -
  have "sort_key (\<lambda>x. (\<not> is_dir fs x, name x)) (map (child item) ns)
      = map (child item) (sort (filter (\<lambda>n. is_dir fs (child item n)) ns)
                           @ sort (filter (\<lambda>n. \<not> is_dir fs (child item n)) ns))"
    by (simp add: sort_dirs_first filter_map comp_def sort_children)
  with assms show ?thesis
    by (simp add: summary_body_def iterdir_def spec_children_def comp_def)
qed

lemma summary_loop_all:
  "\<forall>item \<in> set items. snd (summary_body fs item) = None \<Longrightarrow>
     summary_loop fs items = (concat (map (\<lambda>item. fst (summary_body fs item)) items), None)"
  by (induction items) (auto split: prod.splits option.splits)

lemma show_summary_listing:
  assumes "listdir fs b = Inr names"
    and "\<forall>n \<in> set (subdirs fs b names). snd (summary_body fs (child b n)) = None"
  shows "show_summary fs b =
     summary_banner @
     (if subdirs fs b names = [] then [no_subdirs_line]
      else concat (map (\<lambda>n. fst (summary_body fs (child b n))) (subdirs fs b names)))"
proof -
  from assms(2)
  have "\<forall>item \<in> set (map (child b) (subdirs fs b names)). snd (summary_body fs item) = None"
    by simp
  from summary_loop_all [OF this] assms(1) show ?thesis
    by (simp add: show_summary_def iterdir_def sorted_items items_Nil Let_def
        no_subdirs_line_def comp_def)
qed

lemma example_tree_run: "show_clean_structure example_fs example_base = Some (Inr example_tree)"
  by code_simp

lemma example_summary_run: "show_summary example_fs example_base = example_summary"
  by code_simp









lemma child_inj [simp]: "child d n = child d n' \<longleftrightarrow> n = n'"
  by (cases d) (simp add: child_def)






lemma summary_subject_sub_item [simp]: "summary_subject (sub_item_line fs p) = Some p"
  by (simp add: sub_item_line_def)

lemma summary_subject_section [simp]: "summary_subject (section_line p) = Some p"
  by (simp add: section_line_def)

lemma set_subdirs: "n \<in> set (subdirs fs b names) \<Longrightarrow> n \<in> set names"
  by (simp add: subdirs_def)

lemma spec_children_depth:
  "x \<in> set (spec_children fs item ns) \<Longrightarrow> \<exists>m \<in> set ns. summary_subject x = Some (child item m)"
  by (auto simp: spec_children_def)

lemma spec_summary_depth:
  assumes "x \<in> set (spec_summary fs b names children_of)" and "summary_subject x = Some p"
  shows "\<exists>n \<in> set names. p = child b n \<or> (\<exists>m \<in> set (children_of n). p = child (child b n) m)"
proof -
  from assms have "x \<in> set (concat (map (\<lambda>n. section_line (child b n)
                              # spec_children fs (child b n) (children_of n))
                     (subdirs fs b names)))"
    by (auto simp: spec_summary_def summary_banner_def no_subdirs_line_def split: if_splits)
  then obtain n where n: "n \<in> set (subdirs fs b names)"
    and x: "x = section_line (child b n) \<or> x \<in> set (spec_children fs (child b n) (children_of n))"
    by auto
  from x show ?thesis
  proof
    assume "x = section_line (child b n)"
    with assms(2) set_subdirs [OF n] show ?thesis by auto
  next
    assume "x \<in> set (spec_children fs (child b n) (children_of n))"
    from spec_children_depth [OF this] assms(2) set_subdirs [OF n] show ?thesis by auto
  qed
qed

lemma relative_to_parent:
  assumes "relative_to (parent cur) b \<noteq> None"
  shows "relative_to cur b \<noteq> None"
proof (cases "tail cur = []")
  case True
  with assms show ?thesis by (simp add: parent_def)
next
  case False
  from assms False have a: "anchor cur = anchor b"
    and t: "take (length (tail b)) (butlast (tail cur)) = tail b"
    by (auto simp: parent_def relative_to_def split: if_splits)
  from arg_cong [OF t, of length] have "length (tail b) \<le> length (tail cur) - 1"
    by simp
  moreover from False have "0 < length (tail cur)"
    by simp
  ultimately have "length (tail b) < length (tail cur)"
    by linarith
  with t have "take (length (tail b)) (tail cur) = tail b"
    by (simp add: take_butlast)
  with a show ?thesis
    by (simp add: relative_to_def)
qed

lemma walk_up_relative:
  assumes "walk_up fs b cur st = Some st'"
  shows "relative_to cur b \<noteq> None
       \<and> ((\<forall>d \<in> set (fst st). relative_to d b \<noteq> None)
            \<longrightarrow> (\<forall>d \<in> set (fst st'). relative_to d b \<noteq> None))"
  using assms
proof (induction rule: walk_up.raw_induct [rotated 1, consumes 1])
  case (1 walk fs b cur st st')
  show ?case
  proof (cases "cur = b")
    case True
    with 1(2) show ?thesis by (simp add: relative_to_def)
  next
    case False
    let ?st = "if is_dir fs cur \<and> cur \<notin> snd st
               then (fst st @ [cur], insert cur (snd st)) else st"
    from False 1(2) have "walk fs b (parent cur) ?st = Some st'" by simp
    from 1(1) [OF this] have p: "relative_to (parent cur) b \<noteq> None"
      and q: "(\<forall>d \<in> set (fst ?st). relative_to d b \<noteq> None)
            \<longrightarrow> (\<forall>d \<in> set (fst st'). relative_to d b \<noteq> None)"
      by blast+
    from relative_to_parent [OF p] have c: "relative_to cur b \<noteq> None" .
    have "set (fst ?st) \<subseteq> insert cur (set (fst st))"
      by auto
    with c have "(\<forall>d \<in> set (fst st). relative_to d b \<noteq> None)
            \<longrightarrow> (\<forall>d \<in> set (fst ?st). relative_to d b \<noteq> None)"
      by blast
    with c q show ?thesis by blast
  qed
qed

lemma print_dirs_returns:
  "\<forall>d \<in> set ds. relative_to d b \<noteq> None \<Longrightarrow> \<exists>hs. print_dirs b ds = Inr hs"
  by (induction ds) (auto simp: level_of_def)

lemma print_file_returns:
  "relative_to p b \<noteq> None \<Longrightarrow> \<exists>fl. print_file fs b p = Inr fl"
  by (auto simp: print_file_def level_of_def)

lemma tree_loop_no_exception: "tree_loop fs b ps (out, shown) \<noteq> Some (Inl e)"
proof (induction ps arbitrary: out shown)
  case Nil
  show ?case by simp
next
  case (Cons p ps)
  show ?case
  proof (cases "should_include p")
    case False
    with Cons.IH show ?thesis by simp
  next
    case True
    show ?thesis
    proof (cases "walk_up fs b p ([], shown)")
      case None
      with True show ?thesis by simp
    next
      case (Some st')
      from walk_up_relative [OF Some]
      have "relative_to p b \<noteq> None" "\<forall>d \<in> set (rev (fst st')). relative_to d b \<noteq> None"
        by simp_all
      with print_dirs_returns [of "rev (fst st')" b] print_file_returns [of p b fs]
      obtain hs fl where "print_dirs b (rev (fst st')) = Inr hs" "print_file fs b p = Inr fl"
        by blast
      with True Some Cons.IH show ?thesis
        by (cases st') simp
    qed
  qed
qed

lemma first_raised_None: "first_raised raises ps = None \<longleftrightarrow> (\<forall>p \<in> set ps. raises p = None)"
  by (induction ps) (auto split: option.splits)

lemma select_items_eq:
  "select_items raises fs ps =
     (case first_raised raises ps of
        Some e \<Rightarrow> Inl e
      | None \<Rightarrow> Inr (filter (\<lambda>item. is_dir fs item \<and> name item \<notin> summary_exclude_dirs) ps))"
  by (induction ps) (auto simp: is_dir_call_def split: option.splits)

lemma sort_keys_eq:
  "sort_keys raises fs ps =
     (case first_raised raises ps of
        Some e \<Rightarrow> Inl e
      | None \<Rightarrow> Inr (map (\<lambda>x. (\<not> is_dir fs x, name x)) ps))"
  by (induction ps) (auto simp: is_dir_call_def split: option.splits)

lemma zip_map_self: "zip (map f xs) xs = map (\<lambda>x. (f x, x)) xs"
  by (induction xs) simp_all

lemma sort_decorated: "map snd (sort_key fst (zip (map f xs) xs)) = sort_key f xs"
  by (simp add: zip_map_self sort_key_map comp_def)

lemma sorted_sub_items_eq:
  "sorted_sub_items raises fs ps =
     (case first_raised raises ps of
        Some e \<Rightarrow> Inl e
      | None \<Rightarrow> Inr (sort_key (\<lambda>x. (\<not> is_dir fs x, name x)) ps))"
  by (simp add: sorted_sub_items_def sort_keys_eq sort_decorated split: option.splits)

lemma print_sub_items_eq:
  "\<forall>p \<in> set ps. raises p = None \<Longrightarrow>
     print_sub_items raises fs ps = (map (sub_item_line fs) ps, None)"
  by (induction ps) (simp_all add: is_dir_call_def sub_item_line_def)

lemma sorted_children:
  "sort_key (\<lambda>x. (\<not> is_dir fs x, name x)) (map (child item) ns)
      = map (child item) (sort (filter (\<lambda>n. is_dir fs (child item n)) ns)
                           @ sort (filter (\<lambda>n. \<not> is_dir fs (child item n)) ns))"
  by (simp add: sort_dirs_first filter_map comp_def sort_children)

lemma summary_body_raising_eq:
  "summary_body_raising raises fs item =
     (case reading raises fs item of
        Inl e \<Rightarrow> inner_handler [section_line item] e
      | Inr ns \<Rightarrow> (section_line item # spec_children fs item ns, None))"
proof (cases "reading raises fs item")
  case (Inl e)
  then show ?thesis
    by (auto simp: summary_body_raising_def reading_def iterdir_def sorted_sub_items_eq
        split: sum.splits option.splits)
next
  case (Inr ns)
  then have l: "listdir fs item = Inr ns"
    and n: "first_raised raises (map (child item) ns) = None"
    by (auto simp: reading_def split: sum.splits option.splits)
  from n have "\<forall>p \<in> set (sort_key (\<lambda>x. (\<not> is_dir fs x, name x)) (map (child item) ns)).
      raises p = None"
    by (simp add: first_raised_None)
  from print_sub_items_eq [OF this]
  have "print_sub_items raises fs (sort_key (\<lambda>x. (\<not> is_dir fs x, name x)) (map (child item) ns))
      = (spec_children fs item ns, None)"
    by (simp add: sorted_children spec_children_def comp_def)
  with Inr l n show ?thesis
    by (simp add: summary_body_raising_def iterdir_def sorted_sub_items_eq)
qed

lemma summary_body_raising_ok:
  "readable_or_denied (reading raises fs item) \<Longrightarrow>
     summary_body_raising raises fs item = (spec_section raises fs item, None)"
  by (cases "reading raises fs item" rule: readable_or_denied.cases)
     (simp_all add: summary_body_raising_eq spec_section_def)

lemma summary_loop_raising_append:
  "\<forall>item \<in> set items. readable_or_denied (reading raises fs item) \<Longrightarrow>
     summary_loop_raising raises fs (items @ rest) =
       (concat (map (spec_section raises fs) items) @ fst (summary_loop_raising raises fs rest),
        snd (summary_loop_raising raises fs rest))"
  by (induction items) (simp_all add: summary_body_raising_ok split: prod.splits)

lemma summary_body_raising_other:
  "reading raises fs item = Inl e \<Longrightarrow> \<not> readable_or_denied (Inl e) \<Longrightarrow>
     summary_body_raising raises fs item = ([section_line item], Some e)"
  by (cases "Inl e :: exn + string list" rule: readable_or_denied.cases)
     (simp_all add: summary_body_raising_eq)

lemma readable_or_denied_Inl [simp]:
  "readable_or_denied (Inl e) = is_permission_error e"
  by (cases e) simp_all

lemma first_raised_never [simp]: "first_raised (\<lambda>p. None) ps = None"
  by (induction ps) simp_all

lemma reading_never [simp]: "reading (\<lambda>p. None) fs d = listdir fs d"
  by (simp add: reading_def split: sum.splits)

lemma summary_body_raising_never: "summary_body_raising (\<lambda>p. None) fs item = summary_body fs item"
proof (cases "listdir fs item")
  case (Inl e)
  then show ?thesis
    by (cases e) (simp_all add: summary_body_raising_eq summary_body_def iterdir_def)
next
  case (Inr ns)
  then show ?thesis
    by (simp add: summary_body_raising_eq summary_body_readable)
qed

lemma summary_loop_raising_never: "summary_loop_raising (\<lambda>p. None) fs items = summary_loop fs items"
  by (induction items) (simp_all add: summary_body_raising_never)

lemma show_summary_raising_never: "show_summary_raising (\<lambda>p. None) fs b = show_summary fs b"
  by (simp add: show_summary_raising_def show_summary_def select_items_eq
      summary_loop_raising_never Let_def split: sum.splits)

lemma show_summary_raising_loop:
  assumes "listdir fs b = Inr names" and "first_raised raises (map (child b) names) = None"
  shows "show_summary_raising raises fs b =
     summary_banner @
     (if subdirs fs b names = [] then [no_subdirs_line]
      else (case summary_loop_raising raises fs (map (child b) (subdirs fs b names)) of
              (out, None) \<Rightarrow> out
            | (out, Some e) \<Rightarrow> out @ [error_line e]))"
  using assms
  by (simp add: show_summary_raising_def iterdir_def select_items_eq sorted_items items_Nil)

lemma show_summary_raising_base:
  assumes "reading raises fs b = Inl e"
  shows "show_summary_raising raises fs b = summary_banner @ [error_line e]"
  using assms
  by (auto simp: show_summary_raising_def iterdir_def select_items_eq reading_def
      split: sum.splits option.splits)

lemma example_raising_run:
  "show_summary_raising example_raises example_fs example_base =
     summary_banner @
     [section_line (below example_base [''locked'']), denied_line,
      section_line (below example_base [''src'']),
      Sub_dir (below example_base [''src'', ''app'']) (''  '' @ folder_mark @ '' app/''),
      Sub_file (below example_base [''src'', ''util.py'']) (''  '' @ page_mark @ '' util.py''),
      section_line (below example_base [''x.tmp'']), denied_line]"
  by code_simp

subsection \<open>The claims\<close>

text \<open>
  Claim C1. Let every path \<^verbatim>\<open>rglob\<close> yields be strictly below the base directory, and
  let every proper ancestor of such a path be a directory. Then the Tree Printer returns,
  and wherever its output has a directory header or a file line for a path \<open>d\<close>, the
  header of every ancestor of \<open>d\<close> strictly below the base directory stands at an earlier
  position of the output.
\<close>

theorem ancestor_headers_first:
  assumes "\<forall>p \<in> set (rglob fs base_path). strictly_below base_path p"
    and "\<forall>p \<in> set (rglob fs base_path). \<forall>a \<in> set (ancestors_below base_path p). is_dir fs a"
  shows "\<exists>out. show_clean_structure fs base_path = Some (Inr out)
          \<and> (\<forall>i < length out. \<forall>d. tree_subject (out ! i) = Some d \<longrightarrow>
               (\<forall>a \<in> set (ancestors_below base_path d). \<exists>j < i. is_header_of a (out ! j)))"
proof -
  let ?ps = "sort_key parts (rglob fs base_path)"
  from assms have "\<forall>p \<in> set ?ps. strictly_below base_path p"
    "\<forall>p \<in> set ?ps. \<forall>a \<in> set (ancestors_below base_path p). is_dir fs a"
    by simp_all
  from tree_loop_ordered [OF this, of "{}" tree_banner]
  obtain out where out: "show_clean_structure fs base_path = Some (Inr out)"
    "ordered_from base_path {} out"
    unfolding show_clean_structure_def by auto
  from ordered_from_index [OF out(2)] out(1) show ?thesis by blast
qed

theorem ancestor_headers_first_witness:
  "show_clean_structure example_fs example_base = Some (Inr example_tree)
   \<and> tree_subject (example_tree ! 6) = Some (below example_base [''src'', ''app'', ''main.py''])
   \<and> (\<exists>j < 6. is_header_of (below example_base [''src'']) (example_tree ! j))
   \<and> (\<exists>j < 6. is_header_of (below example_base [''src'', ''app'']) (example_tree ! j))"
proof -
  have h1: "\<forall>p \<in> set (rglob example_fs example_base). strictly_below example_base p"
    by (simp add: example_fs_def)
  have h2: "\<forall>p \<in> set (rglob example_fs example_base).
      \<forall>a \<in> set (ancestors_below example_base p). is_dir example_fs a"
    by code_simp
  from ancestor_headers_first [OF h1 h2] obtain out where
    o: "show_clean_structure example_fs example_base = Some (Inr out)" and
    p: "\<forall>i < length out. \<forall>d. tree_subject (out ! i) = Some d \<longrightarrow>
          (\<forall>a \<in> set (ancestors_below example_base d). \<exists>j < i. is_header_of a (out ! j))"
    by blast
  from o have out: "out = example_tree"
    by (simp add: example_tree_run)
  have l: "6 < length example_tree"
    by (simp add: example_tree_def tree_banner_def)
  have s: "tree_subject (example_tree ! 6) = Some (below example_base [''src'', ''app'', ''main.py''])"
    by (simp add: example_tree_def tree_banner_def)
  have a: "set (ancestors_below example_base (below example_base [''src'', ''app'', ''main.py'']))
         = {below example_base [''src''], below example_base [''src'', ''app'']}"
    by code_simp
  from p l s a show ?thesis
    unfolding out using example_tree_run by auto
qed

text \<open>
  Claim C2. Whatever the filesystem answers, an output the Tree Printer returns holds no
  two headers of the same directory, and no exception leaves the Tree Printer's own
  statements; the Tree Printer does return when every path \<^verbatim>\<open>rglob\<close> yields is
  strictly below the base directory.
\<close>

theorem dir_header_once:
  "(\<forall>out. show_clean_structure fs base_path = Some (Inr out) \<longrightarrow> distinct (dir_headers out))
   \<and> (\<forall>e. show_clean_structure fs base_path \<noteq> Some (Inl e))
   \<and> ((\<forall>p \<in> set (rglob fs base_path). strictly_below base_path p) \<longrightarrow>
        (\<exists>out. show_clean_structure fs base_path = Some (Inr out)))"
proof (intro conjI allI impI)
  fix out
  assume "show_clean_structure fs base_path = Some (Inr out)"
  then show "distinct (dir_headers out)"
    unfolding show_clean_structure_def by (rule tree_loop_distinct) simp_all
next
  fix e
  show "show_clean_structure fs base_path \<noteq> Some (Inl e)"
    unfolding show_clean_structure_def by (rule tree_loop_no_exception)
next
  assume "\<forall>p \<in> set (rglob fs base_path). strictly_below base_path p"
  then have "\<forall>p \<in> set (sort_key parts (rglob fs base_path)). strictly_below base_path p"
    by simp
  from tree_loop_total [OF this] show "\<exists>out. show_clean_structure fs base_path = Some (Inr out)"
    unfolding show_clean_structure_def .
qed

theorem dir_header_once_witness:
  "show_clean_structure example_fs example_base = Some (Inr example_tree)
   \<and> distinct (dir_headers example_tree)"
proof -
  have h1: "\<forall>p \<in> set (rglob example_fs example_base). strictly_below example_base p"
    by (simp add: example_fs_def)
  from dir_header_once [of example_fs example_base] h1 example_tree_run
  show ?thesis by auto
qed

text \<open>
  Claim C6. When the base directory and its listed subdirectories can be read, the
  Summary Printer prints what the specification describes: the subdirectories outside
  the coarse exclusion set in alphabetical order, and under each its entries, the
  directories in alphabetical order before the other entries in alphabetical order. Every
  path it prints a line for is an entry of the base directory or an entry of such an
  entry.
\<close>

theorem summary_listing_sorted:
  assumes "listdir fs base_path = Inr names"
    and "\<forall>n \<in> set (subdirs fs base_path names).
           listdir fs (child base_path n) = Inr (children_of n)"
  shows "show_summary fs base_path = spec_summary fs base_path names children_of
       \<and> (\<forall>x \<in> set (show_summary fs base_path). \<forall>p. summary_subject x = Some p \<longrightarrow>
            (\<exists>n \<in> set names. p = child base_path n
                \<or> (\<exists>m \<in> set (children_of n). p = child (child base_path n) m)))"
proof -
  from assms(2)
  have 1: "\<forall>n \<in> set (subdirs fs base_path names).
      summary_body fs (child base_path n)
        = (section_line (child base_path n)
             # spec_children fs (child base_path n) (children_of n), None)"
    by (simp add: summary_body_readable)
  then have 2: "\<forall>n \<in> set (subdirs fs base_path names).
      snd (summary_body fs (child base_path n)) = None"
    by simp
  have 3: "map (\<lambda>n. fst (summary_body fs (child base_path n))) (subdirs fs base_path names)
      = map (\<lambda>n. section_line (child base_path n)
                    # spec_children fs (child base_path n) (children_of n))
          (subdirs fs base_path names)"
    by (rule map_cong) (simp_all add: 1)
  have eq: "show_summary fs base_path = spec_summary fs base_path names children_of"
    unfolding show_summary_listing [OF assms(1) 2] spec_summary_def 3 ..
  show ?thesis
    unfolding eq using spec_summary_depth [of _ fs base_path names children_of] by blast
qed

theorem summary_listing_sorted_witness:
  "show_summary ab_fs example_base =
     summary_banner @
     [section_line (below example_base [''a'']),
      Sub_file (below example_base [''a'', ''x'']) (''  '' @ page_mark @ '' x''),
      Sub_file (below example_base [''a'', ''y'']) (''  '' @ page_mark @ '' y''),
      section_line (below example_base [''b''])]"
proof -
  have h1: "listdir ab_fs example_base = Inr [''b'', ''a'']"
    by (simp add: ab_fs_def)
  have h2: "\<forall>n \<in> set (subdirs ab_fs example_base [''b'', ''a'']).
      listdir ab_fs (child example_base n) = Inr (ab_children n)"
    by code_simp
  have "spec_summary ab_fs example_base [''b'', ''a''] ab_children =
     summary_banner @
     [section_line (below example_base [''a'']),
      Sub_file (below example_base [''a'', ''x'']) (''  '' @ page_mark @ '' x''),
      Sub_file (below example_base [''a'', ''y'']) (''  '' @ page_mark @ '' y''),
      section_line (below example_base [''b''])]"
    by code_simp
  with summary_listing_sorted [OF h1 h2] show ?thesis by simp
qed

text \<open>
  Claim C3. Let the base directory be read without an exception. When reading the
  entries of every listed subdirectory succeeds or raises \<^verbatim>\<open>PermissionError\<close>, the
  Summary Printer prints the section of each of them, in order: its header and then its
  entries or, for a subdirectory that raised, the line \<^verbatim>\<open>(Permission denied)\<close> in their
  place. When reading the base directory raises any exception, the output is the banner
  and the line \<^verbatim>\<open>Error reading directory:\<close> with the message. When reading a
  subdirectory raises another exception than \<^verbatim>\<open>PermissionError\<close>, the sections before
  it are printed as above, then its header and the error line, and the summary ends. In
  each case the function returns.
\<close>

theorem summary_errors:
  "(listdir fs base_path = Inr names
      \<and> first_raised raises (map (child base_path) names) = None
      \<and> (\<forall>n \<in> set (subdirs fs base_path names).
            readable_or_denied (reading raises fs (child base_path n)))
     \<longrightarrow> show_summary_raising raises fs base_path =
           summary_banner @
           (if subdirs fs base_path names = [] then [no_subdirs_line]
            else concat (map (\<lambda>n. section_line (child base_path n) #
                                (case reading raises fs (child base_path n) of
                                   Inr ns \<Rightarrow> spec_children fs (child base_path n) ns
                                 | Inl e \<Rightarrow> [denied_line]))
                          (subdirs fs base_path names))))
   \<and> (reading raises fs base_path = Inl e
     \<longrightarrow> show_summary_raising raises fs base_path = summary_banner @ [error_line e])
   \<and> (listdir fs base_path = Inr names
      \<and> first_raised raises (map (child base_path) names) = None
      \<and> subdirs fs base_path names = pre @ n # post
      \<and> (\<forall>k \<in> set pre. readable_or_denied (reading raises fs (child base_path k)))
      \<and> reading raises fs (child base_path n) = Inl e \<and> \<not> is_permission_error e
     \<longrightarrow> show_summary_raising raises fs base_path =
           summary_banner @
           concat (map (\<lambda>k. section_line (child base_path k) #
                               (case reading raises fs (child base_path k) of
                                  Inr ns \<Rightarrow> spec_children fs (child base_path k) ns
                                | Inl e \<Rightarrow> [denied_line]))
                     pre)
           @ [section_line (child base_path n), error_line e])"
proof (intro conjI impI)
  assume a: "listdir fs base_path = Inr names
      \<and> first_raised raises (map (child base_path) names) = None
      \<and> (\<forall>n \<in> set (subdirs fs base_path names).
            readable_or_denied (reading raises fs (child base_path n)))"
  then have "\<forall>item \<in> set (map (child base_path) (subdirs fs base_path names)).
      readable_or_denied (reading raises fs item)"
    by simp
  from summary_loop_raising_append [OF this, of "[]"]
  have "summary_loop_raising raises fs (map (child base_path) (subdirs fs base_path names))
      = (concat (map (\<lambda>n. spec_section raises fs (child base_path n))
                   (subdirs fs base_path names)), None)"
    by (simp add: comp_def)
  with a show "show_summary_raising raises fs base_path =
           summary_banner @
           (if subdirs fs base_path names = [] then [no_subdirs_line]
            else concat (map (\<lambda>n. section_line (child base_path n) #
                                (case reading raises fs (child base_path n) of
                                   Inr ns \<Rightarrow> spec_children fs (child base_path n) ns
                                 | Inl e \<Rightarrow> [denied_line]))
                          (subdirs fs base_path names)))"
    by (simp add: show_summary_raising_loop spec_section_def)
next
  assume "reading raises fs base_path = Inl e"
  then show "show_summary_raising raises fs base_path = summary_banner @ [error_line e]"
    by (rule show_summary_raising_base)
next
  assume a: "listdir fs base_path = Inr names
      \<and> first_raised raises (map (child base_path) names) = None
      \<and> subdirs fs base_path names = pre @ n # post
      \<and> (\<forall>k \<in> set pre. readable_or_denied (reading raises fs (child base_path k)))
      \<and> reading raises fs (child base_path n) = Inl e \<and> \<not> is_permission_error e"
  then have "\<forall>item \<in> set (map (child base_path) pre). readable_or_denied (reading raises fs item)"
    by simp
  from summary_loop_raising_append [OF this, of "child base_path n # map (child base_path) post"]
    a
  have "summary_loop_raising raises fs (map (child base_path) (subdirs fs base_path names))
      = (concat (map (\<lambda>k. spec_section raises fs (child base_path k)) pre)
           @ [section_line (child base_path n)], Some e)"
    by (simp add: comp_def summary_body_raising_other)
  with a show "show_summary_raising raises fs base_path =
           summary_banner @
           concat (map (\<lambda>k. section_line (child base_path k) #
                               (case reading raises fs (child base_path k) of
                                  Inr ns \<Rightarrow> spec_children fs (child base_path k) ns
                                | Inl e \<Rightarrow> [denied_line]))
                     pre)
           @ [section_line (child base_path n), error_line e]"
    by (simp add: show_summary_raising_loop spec_section_def)
qed

theorem summary_errors_witness:
  "show_summary_raising example_raises example_fs example_base =
     summary_banner @
     [section_line (below example_base [''locked'']), denied_line,
      section_line (below example_base [''src'']),
      Sub_dir (below example_base [''src'', ''app'']) (''  '' @ folder_mark @ '' app/''),
      Sub_file (below example_base [''src'', ''util.py'']) (''  '' @ page_mark @ '' util.py''),
      section_line (below example_base [''x.tmp'']), denied_line]
   \<and> show_summary_raising (\<lambda>p. None) absent_fs example_base
       = summary_banner @ [error_line no_such_directory]
   \<and> show_summary_raising (\<lambda>p. None) broken_fs example_base =
       summary_banner @
       [section_line (below example_base [''locked'']), denied_line,
        section_line (below example_base [''src'']), error_line io_error]"
proof -
  have n: "listdir example_fs example_base = Inr example_names"
    by (simp add: example_fs_def example_names_def)
  have f: "first_raised example_raises (map (child example_base) example_names) = None"
    by code_simp
  have s: "subdirs example_fs example_base example_names = [''locked'', ''src'', ''x.tmp'']"
    by code_simp
  have r: "\<forall>n \<in> set (subdirs example_fs example_base example_names).
      readable_or_denied (reading example_raises example_fs (child example_base n))"
    by code_simp
  have 1: "summary_banner @
     (if subdirs example_fs example_base example_names = [] then [no_subdirs_line]
      else concat (map (\<lambda>n. section_line (child example_base n) #
                          (case reading example_raises example_fs (child example_base n) of
                             Inr ns \<Rightarrow> spec_children example_fs (child example_base n) ns
                           | Inl e \<Rightarrow> [denied_line]))
                    (subdirs example_fs example_base example_names)))
     = summary_banner @
     [section_line (below example_base [''locked'']), denied_line,
      section_line (below example_base [''src'']),
      Sub_dir (below example_base [''src'', ''app'']) (''  '' @ folder_mark @ '' app/''),
      Sub_file (below example_base [''src'', ''util.py'']) (''  '' @ page_mark @ '' util.py''),
      section_line (below example_base [''x.tmp'']), denied_line]"
    by code_simp
  have a: "reading (\<lambda>p. None) absent_fs example_base = Inl no_such_directory"
    by (simp add: reading_def absent_fs_def)
  have bn: "listdir broken_fs example_base = Inr example_names"
    by code_simp
  have bf: "first_raised (\<lambda>p. None) (map (child example_base) example_names) = None"
    by code_simp
  have bs: "subdirs broken_fs example_base example_names = [''locked''] @ ''src'' # [''x.tmp'']"
    by code_simp
  have bp: "\<forall>k \<in> set [''locked''].
      readable_or_denied (reading (\<lambda>p. None) broken_fs (child example_base k))"
    by code_simp
  have be: "reading (\<lambda>p. None) broken_fs (child example_base ''src'') = Inl io_error"
    by code_simp
  have bo: "\<not> is_permission_error io_error"
    by (simp add: io_error_def)
  have 3: "summary_banner @
       concat (map (\<lambda>k. section_line (child example_base k) #
                           (case reading (\<lambda>p. None) broken_fs (child example_base k) of
                              Inr ns \<Rightarrow> spec_children broken_fs (child example_base k) ns
                            | Inl e \<Rightarrow> [denied_line]))
                 [''locked''])
       @ [section_line (child example_base ''src''), error_line io_error]
     = summary_banner @
       [section_line (below example_base [''locked'']), denied_line,
        section_line (below example_base [''src'']), error_line io_error]"
    by code_simp
  from summary_errors [of example_fs example_base example_names example_raises]
    n f r 1
  have c1: "show_summary_raising example_raises example_fs example_base =
     summary_banner @
     [section_line (below example_base [''locked'']), denied_line,
      section_line (below example_base [''src'']),
      Sub_dir (below example_base [''src'', ''app'']) (''  '' @ folder_mark @ '' app/''),
      Sub_file (below example_base [''src'', ''util.py'']) (''  '' @ page_mark @ '' util.py''),
      section_line (below example_base [''x.tmp'']), denied_line]"
    by simp
  from summary_errors [of absent_fs example_base _ "\<lambda>p. None" no_such_directory] a
  have c2: "show_summary_raising (\<lambda>p. None) absent_fs example_base
       = summary_banner @ [error_line no_such_directory]"
    by blast
  from summary_errors [of broken_fs example_base example_names "\<lambda>p. None" io_error
      "[''locked'']" "''src''" "[''x.tmp'']"] bn bf bs bp be bo 3
  have c3: "show_summary_raising (\<lambda>p. None) broken_fs example_base =
       summary_banner @
       [section_line (below example_base [''locked'']), denied_line,
        section_line (below example_base [''src'']), error_line io_error]"
    by simp
  from c1 c2 c3 show ?thesis by blast
qed

text \<open>
  Claim C9. For an empty base directory the Tree Printer prints its two banner lines and
  nothing else, and the Summary Printer prints, after its banner, the line
  \<^verbatim>\<open>No subdirectories found.\<close> and no listing.
\<close>

theorem empty_base_directory:
  assumes "rglob fs base_path = []" and "listdir fs base_path = Inr []"
  shows "show_clean_structure fs base_path = Some (Inr tree_banner)
       \<and> show_summary fs base_path = summary_banner @ [no_subdirs_line]"
  using assms by (simp add: show_clean_structure_def show_summary_def iterdir_def)

theorem empty_base_directory_witness:
  "show_clean_structure empty_fs example_base = Some (Inr tree_banner)
   \<and> show_summary empty_fs example_base = summary_banner @ [no_subdirs_line]"
proof -
  have "rglob empty_fs example_base = []" "listdir empty_fs example_base = Inr []"
    by (simp_all add: empty_fs_def)
  from empty_base_directory [OF this] show ?thesis .
qed



end
